theory Spec2Isabelle
  imports Complex_Main
begin

section \<open>VideoCacheThread: the prefetch cache engine\<close>

text \<open>
  Source: \<^verbatim>\<open>src/libopenshot/src/Qt/VideoCacheThread.cpp\<close> (with its header).

  The C++ types \<^verbatim>\<open>int\<close> and \<^verbatim>\<open>int64_t\<close> are modelled by \<^typ>\<open>int\<close>. Frame numbers and
  speeds are small; signed overflow is undefined behaviour in C++, so the model describes
  every execution in which no intermediate value leaves the 64-bit range.
\<close>

subsection \<open>Collaborators: frames, the reader and the cache\<close>

text \<open>
  A frame as the engine sees it: its ordinal \<^verbatim>\<open>frame->number\<close> and its size in bytes
  (what the cache budgets). Pixel and audio data play no role in the engine.
\<close>

record frame =
  number :: int
  bytes :: int

text \<open>
  Exceptions a \<^verbatim>\<open>ReaderBase::GetFrame\<close> call can raise. \<^verbatim>\<open>prefetchWindow\<close> catches
  \<^verbatim>\<open>OutOfBoundsFrame\<close> only; anything else leaves the method.
\<close>

datatype reader_error = OutOfBoundsFrame | ReaderClosed

text \<open>
  \<^verbatim>\<open>CacheBase\<close>, \<^verbatim>\<open>ReaderBase\<close> and \<^verbatim>\<open>Timeline\<close> are abstract collaborators whose code is
  not part of the sources at hand, so their virtual methods are parameters of the model,
  over an arbitrary cache representation \<^typ>\<open>'c\<close>.

  \<^verbatim>\<open>Add\<close> returns, next to the new cache, whether the call raised the engine's
  \<^verbatim>\<open>userSeeked\<close> flag while it ran: the flag is written from outside the worker
  (\<^verbatim>\<open>Seek(n, true)\<close>), and the unit test's \<^verbatim>\<open>InterruptingCache::Add\<close> does exactly that
  through \<^verbatim>\<open>forceUserSeekFlag()\<close>.
\<close>

record 'c collaborators =
  cache_Contains :: "'c \<Rightarrow> int \<Rightarrow> bool"
  cache_Add :: "frame \<Rightarrow> 'c \<Rightarrow> 'c \<times> bool"
  cache_Touch :: "int \<Rightarrow> 'c \<Rightarrow> 'c"
  timeline_ClearAllCache :: "'c \<Rightarrow> 'c"
  reader_GetFrame :: "int \<Rightarrow> reader_error + frame"

text \<open>
  The calls the engine makes on its collaborators, in the order it makes them. The list is
  a ghost field of the state: the code does not keep it, it only records what the code did.
  \<open>CallContains n b\<close> and \<open>CallGetFrame n r\<close> carry the value the call returned,
  \<open>CallAdd f b\<close> whether the call raised \<^verbatim>\<open>userSeeked\<close>.
\<close>

datatype call =
    CallContains int bool
  | CallGetFrame int "reader_error + frame"
  | CallAdd frame bool
  | CallTouch int
  | CallClearAllCache

subsection \<open>Engine state\<close>

text \<open>
  The data members of \<^verbatim>\<open>VideoCacheThread\<close> with the constructor's initial values, the
  exit request of the \<^verbatim>\<open>juce::Thread\<close> base class (read by \<^verbatim>\<open>threadShouldExit()\<close>), the
  cache object the \<^verbatim>\<open>CacheBase*\<close> argument points to (in \<^verbatim>\<open>run()\<close> this is
  \<^verbatim>\<open>reader->GetCache()\<close>, the cache the timeline clears), and the ghost call log.
\<close>

record 'c VideoCacheThread =
  speed :: int
  last_speed :: int
  last_dir :: int
  userSeeked :: bool
  requested_display_frame :: int
  current_display_frame :: int
  cached_frame_count :: int
  min_frames_ahead :: int
  timeline_max_frame :: int
  force_directional_cache :: bool
  last_cached_index :: int
  should_exit :: bool
  cache :: 'c
  calls :: "call list"

definition VideoCacheThread_init :: "'c \<Rightarrow> 'c VideoCacheThread" where
  "VideoCacheThread_init c =
     \<lparr> speed = 0, last_speed = 1, last_dir = 1, userSeeked = False,
       requested_display_frame = 1, current_display_frame = 1,
       cached_frame_count = 0, min_frames_ahead = 4, timeline_max_frame = 0,
       force_directional_cache = False, last_cached_index = 0,
       should_exit = False, cache = c, calls = [] \<rparr>"

definition isReady :: "'c VideoCacheThread \<Rightarrow> bool" where
  "isReady s = (cached_frame_count s > min_frames_ahead s)"

definition setSpeed :: "int \<Rightarrow> 'c VideoCacheThread \<Rightarrow> 'c VideoCacheThread" where
  "setSpeed new_speed s =
     (let s1 = (if new_speed \<noteq> 0
                then s\<lparr> last_speed := new_speed,
                        last_dir := (if new_speed > 0 then 1 else -1) \<rparr>
                else s)
      in s1\<lparr> speed := new_speed \<rparr>)"

definition getSpeed :: "'c VideoCacheThread \<Rightarrow> int" where
  "getSpeed s = speed s"

definition computeDirection :: "'c VideoCacheThread \<Rightarrow> int" where
  "computeDirection s =
     (if speed s \<noteq> 0 then (if speed s > 0 then 1 else -1) else last_dir s)"

definition handleUserSeek :: "int \<Rightarrow> int \<Rightarrow> 'c VideoCacheThread \<Rightarrow> 'c VideoCacheThread" where
  "handleUserSeek playhead dir s = s\<lparr> last_cached_index := playhead - dir \<rparr>"

text \<open>
  \<^verbatim>\<open>clearCacheIfPaused\<close> asks the cache it is given and clears through the timeline
  (\<^verbatim>\<open>static_cast<Timeline*>(reader)->ClearAllCache()\<close>); both act on the one cache object
  of the state. The result is the returned flag and the new state.
\<close>

definition clearCacheIfPaused ::
  "'c collaborators \<Rightarrow> int \<Rightarrow> bool \<Rightarrow> 'c VideoCacheThread \<Rightarrow> bool \<times> 'c VideoCacheThread" where
  "clearCacheIfPaused env playhead paused s =
     (if paused \<and> \<not> cache_Contains env (cache s) playhead
      then (True, s\<lparr> cache := timeline_ClearAllCache env (cache s),
                     calls := calls s @ [CallContains playhead False, CallClearAllCache] \<rparr>)
      else (False, if paused
                   then s\<lparr> calls := calls s @ [CallContains playhead True] \<rparr>
                   else s))"

text \<open>
  \<^verbatim>\<open>computeWindowBounds\<close> writes its two reference parameters; the model returns the pair
  \<open>(window_begin, window_end)\<close>.
\<close>

definition computeWindowBounds :: "int \<Rightarrow> int \<Rightarrow> int \<Rightarrow> int \<Rightarrow> int \<times> int" where
  "computeWindowBounds playhead dir ahead_count timeline_end =
     (let (window_begin, window_end) =
            (if dir > 0
             then (playhead, playhead + ahead_count)
             else (playhead - ahead_count, playhead))
      in (max window_begin 1, min window_end timeline_end))"

text \<open>
  The \<^verbatim>\<open>while\<close> loop of \<^verbatim>\<open>prefetchWindow\<close>, with the locals \<open>window_full\<close> and
  \<open>next_frame\<close> as arguments. The result is \<open>Inr window_full\<close> when the method returns
  and \<open>Inl e\<close> when an exception other than \<^verbatim>\<open>OutOfBoundsFrame\<close> leaves it.
\<close>

function prefetch_loop ::
  "'c collaborators \<Rightarrow> int \<Rightarrow> int \<Rightarrow> int \<Rightarrow> bool \<Rightarrow> int \<Rightarrow> 'c VideoCacheThread
     \<Rightarrow> (reader_error + bool) \<times> 'c VideoCacheThread" where
  "prefetch_loop env window_begin window_end dir window_full next_frame s =
     (if (dir > 0 \<and> next_frame \<le> window_end) \<or> (dir < 0 \<and> next_frame \<ge> window_begin) then
        if should_exit s then (Inr window_full, s)
        else if userSeeked s then (Inr window_full, s)
        else if \<not> cache_Contains env (cache s) next_frame then
          (case reader_GetFrame env next_frame of
             Inr framePtr \<Rightarrow>
               prefetch_loop env window_begin window_end dir False (next_frame + dir)
                 (s\<lparr> cache := fst (cache_Add env framePtr (cache s)),
                      userSeeked := (userSeeked s \<or> snd (cache_Add env framePtr (cache s))),
                      cached_frame_count := cached_frame_count s + 1,
                      last_cached_index := next_frame,
                      calls := calls s @ [CallContains next_frame False,
                                          CallGetFrame next_frame (Inr framePtr),
                                          CallAdd framePtr
                                            (snd (cache_Add env framePtr (cache s)))] \<rparr>)
           | Inl OutOfBoundsFrame \<Rightarrow>
               (Inr window_full,
                s\<lparr> calls := calls s @ [CallContains next_frame False,
                                        CallGetFrame next_frame (Inl OutOfBoundsFrame)] \<rparr>)
           | Inl e \<Rightarrow>
               (Inl e,
                s\<lparr> calls := calls s @ [CallContains next_frame False,
                                        CallGetFrame next_frame (Inl e)] \<rparr>))
        else
          prefetch_loop env window_begin window_end dir window_full (next_frame + dir)
            (s\<lparr> cache := cache_Touch env next_frame (cache s),
                 last_cached_index := next_frame,
                 calls := calls s @ [CallContains next_frame True, CallTouch next_frame] \<rparr>)
      else (Inr window_full, s))"
  by pat_completeness auto
termination
  by (relation "measure (\<lambda>(env, window_begin, window_end, dir, window_full, next_frame, s).
        if dir > 0 then nat (window_end - next_frame + 1)
        else nat (next_frame - window_begin + 1))") auto

definition prefetchWindow ::
  "'c collaborators \<Rightarrow> int \<Rightarrow> int \<Rightarrow> int \<Rightarrow> 'c VideoCacheThread
     \<Rightarrow> (reader_error + bool) \<times> 'c VideoCacheThread" where
  "prefetchWindow env window_begin window_end dir s =
     prefetch_loop env window_begin window_end dir True (last_cached_index s + dir) s"

definition setSpeed_all :: "int list \<Rightarrow> 'c VideoCacheThread \<Rightarrow> 'c VideoCacheThread" where
  \<comment> \<open>A sequence of \<^verbatim>\<open>setSpeed\<close> calls, in order.\<close>
  "setSpeed_all vs s = foldl (\<lambda>t v. setSpeed v t) s vs"

subsection \<open>Reading the call log of a prefetch batch\<close>

definition batch_calls :: "'c VideoCacheThread \<Rightarrow> 'c VideoCacheThread \<Rightarrow> call list" where
  \<comment> \<open>The calls logged between state \<open>s\<close> and the later state \<open>s'\<close>.\<close>
  "batch_calls s s' = drop (length (calls s)) (calls s')"

text \<open>
  The shape a batch that starts at frame \<open>n\<close> and steps by \<open>d\<close> can have: one block per
  frame, in order. A frame the cache reported missing is fetched and added, a frame it
  reported present is touched; a fetch that raises ends the batch.
\<close>

fun batch_shape :: "int \<Rightarrow> int \<Rightarrow> call list \<Rightarrow> bool" where
  "batch_shape n d [] = True"
| "batch_shape n d (CallContains m True # CallTouch m' # rest) =
     (m = n \<and> m' = n \<and> batch_shape (n + d) d rest)"
| "batch_shape n d (CallContains m False # CallGetFrame m' (Inr f) # CallAdd f' b # rest) =
     (m = n \<and> m' = n \<and> f' = f \<and> batch_shape (n + d) d rest)"
| "batch_shape n d [CallContains m False, CallGetFrame m' (Inl e)] = (m = n \<and> m' = n)"
| "batch_shape n d _ = False"

text \<open>
  The frames a batch visited, that is, carried through to
  \<^verbatim>\<open>last_cached_index = next_frame\<close>: those it touched and those it fetched. A frame whose
  fetch raised is not among them.
\<close>

fun visited :: "call list \<Rightarrow> int list" where
  "visited [] = []"
| "visited (CallTouch n # rest) = n # visited rest"
| "visited (CallGetFrame n (Inr f) # rest) = n # visited rest"
| "visited (c # rest) = visited rest"

fun added :: "call list \<Rightarrow> frame list" where
  "added [] = []"
| "added (CallAdd f b # rest) = f # added rest"
| "added (c # rest) = added rest"

fun seek_raised :: "call list \<Rightarrow> bool" where
  \<comment> \<open>Some \<^verbatim>\<open>Add\<close> of the log raised \<^verbatim>\<open>userSeeked\<close>.\<close>
  "seek_raised [] = False"
| "seek_raised (CallAdd f b # rest) = (b \<or> seek_raised rest)"
| "seek_raised (c # rest) = seek_raised rest"

text \<open>
  Replaying a log on the collaborators: the cache after the logged calls, and whether
  every logged answer is the answer the collaborator gives at that point (the cache as
  changed by the calls logged before).
\<close>

fun cache_after :: "'c collaborators \<Rightarrow> 'c \<Rightarrow> call list \<Rightarrow> 'c" where
  "cache_after env c [] = c"
| "cache_after env c (CallAdd f b # rest) = cache_after env (fst (cache_Add env f c)) rest"
| "cache_after env c (CallTouch n # rest) = cache_after env (cache_Touch env n c) rest"
| "cache_after env c (CallClearAllCache # rest) = cache_after env (timeline_ClearAllCache env c) rest"
| "cache_after env c (_ # rest) = cache_after env c rest"

fun log_consistent :: "'c collaborators \<Rightarrow> 'c \<Rightarrow> call list \<Rightarrow> bool" where
  "log_consistent env c [] = True"
| "log_consistent env c (CallContains n b # rest) =
     (b = cache_Contains env c n \<and> log_consistent env c rest)"
| "log_consistent env c (CallGetFrame n x # rest) =
     (x = reader_GetFrame env n \<and> log_consistent env c rest)"
| "log_consistent env c (CallAdd f b # rest) =
     (b = snd (cache_Add env f c) \<and> log_consistent env (fst (cache_Add env f c)) rest)"
| "log_consistent env c (CallTouch n # rest) = log_consistent env (cache_Touch env n c) rest"
| "log_consistent env c (CallClearAllCache # rest) =
     log_consistent env (timeline_ClearAllCache env c) rest"

text \<open>
  The loop condition of \<^verbatim>\<open>prefetchWindow\<close> at \<open>next_frame = n\<close>, and the frames a walk of
  \<open>k\<close> iterations passes that starts at \<open>n\<close> and steps by \<open>d\<close>.
\<close>

definition in_walk :: "int \<Rightarrow> int \<Rightarrow> int \<Rightarrow> int \<Rightarrow> bool" where
  "in_walk window_begin window_end dir n =
     ((dir > 0 \<and> n \<le> window_end) \<or> (dir < 0 \<and> n \<ge> window_begin))"

definition walk_frames :: "int \<Rightarrow> int \<Rightarrow> nat \<Rightarrow> int list" where
  "walk_frames n d k = map (\<lambda>i. n + int i * d) [0..<k]"

subsection \<open>A memory cache and a reader for the scenarios\<close>

text \<open>
  Modelled from the spec: the concrete cache \<^verbatim>\<open>CacheMemory\<close> (its code is not among the
  sources). Section 4.2 of the specification: \<^verbatim>\<open>Add\<close> inserts and evicts the least recently
  used entries until the byte and frame caps hold, \<^verbatim>\<open>Contains\<close> is a membership test that
  does not touch recency, \<^verbatim>\<open>Touch\<close> marks an entry most recently used, \<^verbatim>\<open>Clear\<close> empties
  the cache. The entries are kept most recently used first. Adding a frame number that is
  already present replaces the entry.
\<close>

record CacheMemory =
  entries :: "frame list"
  max_bytes :: int
  max_frames :: int

function evict_lru :: "int \<Rightarrow> int \<Rightarrow> frame list \<Rightarrow> frame list" where
  \<comment> \<open>Modelled from the spec: the eviction of \<^verbatim>\<open>CacheMemory::Add\<close>, "evict LRU until both
      byte and frame caps are satisfied"; the least recently used entry is the last.\<close>
  "evict_lru mb mf fs =
     (if fs \<noteq> [] \<and> (sum_list (map bytes fs) > mb \<or> int (length fs) > mf)
      then evict_lru mb mf (butlast fs) else fs)"
  by pat_completeness auto
termination
  by (relation "measure (\<lambda>(mb, mf, fs). length fs)") auto

definition CacheMemory_Contains :: "CacheMemory \<Rightarrow> int \<Rightarrow> bool" where
  \<comment> \<open>Modelled from the spec: \<^verbatim>\<open>CacheMemory::Contains\<close>, a membership test.\<close>
  "CacheMemory_Contains c n = (n \<in> set (map number (entries c)))"

definition CacheMemory_Add :: "frame \<Rightarrow> CacheMemory \<Rightarrow> CacheMemory" where
  \<comment> \<open>Modelled from the spec: \<^verbatim>\<open>CacheMemory::Add\<close>, insert as most recently used, then
      evict.\<close>
  "CacheMemory_Add f c =
     c\<lparr> entries := evict_lru (max_bytes c) (max_frames c)
                       (f # filter (\<lambda>g. number g \<noteq> number f) (entries c)) \<rparr>"

definition CacheMemory_Touch :: "int \<Rightarrow> CacheMemory \<Rightarrow> CacheMemory" where
  \<comment> \<open>Modelled from the spec: \<^verbatim>\<open>CacheMemory::Touch\<close>, mark most recently used without
      fetching.\<close>
  "CacheMemory_Touch n c =
     c\<lparr> entries := filter (\<lambda>g. number g = n) (entries c)
                       @ filter (\<lambda>g. number g \<noteq> n) (entries c) \<rparr>"

definition CacheMemory_Clear :: "CacheMemory \<Rightarrow> CacheMemory" where
  \<comment> \<open>Modelled from the spec: \<^verbatim>\<open>CacheMemory::Clear\<close>, which \<^verbatim>\<open>Timeline::ClearAllCache\<close>
      applies to the timeline's cache.\<close>
  "CacheMemory_Clear c = c\<lparr> entries := [] \<rparr>"

definition CacheMemory_Count :: "CacheMemory \<Rightarrow> int" where
  \<comment> \<open>Modelled from the spec: \<^verbatim>\<open>CacheMemory::Count\<close>.\<close>
  "CacheMemory_Count c = int (length (entries c))"

definition CacheMemory_new :: "int \<Rightarrow> CacheMemory" where
  \<comment> \<open>Modelled from the spec: \<^verbatim>\<open>CacheMemory cache(max_bytes)\<close>. The frame cap is set to 30, above every window of
      the scenarios below, so that only the byte budget can evict there.\<close>
  "CacheMemory_new mb = \<lparr> entries = [], max_bytes = mb, max_frames = 30 \<rparr>"

definition test_reader :: "int \<Rightarrow> int \<Rightarrow> reader_error + frame" where
  \<comment> \<open>A reader of a 1280x720 clip with \<open>len\<close> frames: frame \<open>n\<close> for \<open>1 \<le> n \<le> len\<close>,
      \<^verbatim>\<open>OutOfBoundsFrame\<close> otherwise.\<close>
  "test_reader len n =
     (if 1 \<le> n \<and> n \<le> len then Inr \<lparr> number = n, bytes = 1280 * 720 * 4 \<rparr>
      else Inl OutOfBoundsFrame)"

definition memory_env :: "(int \<Rightarrow> reader_error + frame) \<Rightarrow> CacheMemory collaborators" where
  \<comment> \<open>A \<^verbatim>\<open>CacheMemory\<close> attached to a timeline, and a reader.\<close>
  "memory_env rd =
     \<lparr> cache_Contains = CacheMemory_Contains,
       cache_Add = (\<lambda>f c. (CacheMemory_Add f c, False)),
       cache_Touch = CacheMemory_Touch,
       timeline_ClearAllCache = CacheMemory_Clear,
       reader_GetFrame = rd \<rparr>"

definition interrupting_env ::
  "int \<Rightarrow> (int \<Rightarrow> reader_error + frame) \<Rightarrow> CacheMemory collaborators" where
  \<comment> \<open>The unit test's \<^verbatim>\<open>InterruptingCache\<close>: \<^verbatim>\<open>Add\<close> of frame \<open>k\<close> calls
      \<^verbatim>\<open>forceUserSeekFlag()\<close> after adding.\<close>
  "interrupting_env k rd =
     (memory_env rd)\<lparr> cache_Add := (\<lambda>f c. (CacheMemory_Add f c, number f = k)) \<rparr>"

definition test_thread :: "int \<Rightarrow> CacheMemory VideoCacheThread" where
  \<comment> \<open>The unit tests' engine: a fresh thread over \<^verbatim>\<open>CacheMemory cache(100000000)\<close>, after
      \<^verbatim>\<open>setLastCachedIndex(lci)\<close>.\<close>
  "test_thread lci =
     (VideoCacheThread_init (CacheMemory_new 100000000))\<lparr> last_cached_index := lci \<rparr>"

definition cache_5_10 :: CacheMemory where
  \<comment> \<open>The cache of the \<^verbatim>\<open>clearCacheIfPaused\<close> test: frames 5 and 10 (\<^verbatim>\<open>Frame(5, 0, 0)\<close>,
      \<^verbatim>\<open>Frame(10, 0, 0)\<close>) added to an empty cache.\<close>
  "cache_5_10 =
     CacheMemory_Add \<lparr> number = 10, bytes = 0 \<rparr>
       (CacheMemory_Add \<lparr> number = 5, bytes = 0 \<rparr> (CacheMemory_new 100000000))"

definition cache_2_4 :: CacheMemory where
  \<comment> \<open>A cache that already holds frames 2 and 4 of the clip.\<close>
  "cache_2_4 =
     CacheMemory_Add \<lparr> number = 4, bytes = 1280 * 720 * 4 \<rparr>
       (CacheMemory_Add \<lparr> number = 2, bytes = 1280 * 720 * 4 \<rparr> (CacheMemory_new 100000000))"

text \<open>
  What \<^verbatim>\<open>prefetchWindow\<close> guarantees about the calls \<open>evs\<close> of one batch that starts at
  frame \<open>nf\<close> in state \<open>s\<close> with the local \<open>window_full = full\<close> and ends in \<open>s'\<close> with
  result \<open>r\<close>. It is the invariant of the loop, stated once for all the theorems below.
\<close>

definition batch_post ::
  "'c collaborators \<Rightarrow> bool \<Rightarrow> int \<Rightarrow> int \<Rightarrow> 'c VideoCacheThread
     \<Rightarrow> (reader_error + bool) \<Rightarrow> 'c VideoCacheThread \<Rightarrow> call list \<Rightarrow> bool" where
  "batch_post env full nf dir s r s' evs =
     (calls s' = calls s @ evs
      \<and> batch_shape nf dir evs
      \<and> last_cached_index s' = last (last_cached_index s # visited evs)
      \<and> cached_frame_count s' = cached_frame_count s + int (length (added evs))
      \<and> (\<forall>b. r = Inr b \<longrightarrow> b = (full \<and> added evs = []))
      \<and> (\<forall>e. r = Inl e \<longrightarrow> e \<noteq> OutOfBoundsFrame \<and>
             (\<exists>pre n. evs = pre @ [CallContains n False, CallGetFrame n (Inl e)]))
      \<and> log_consistent env (cache s) evs
      \<and> cache s' = cache_after env (cache s) evs
      \<and> userSeeked s' = (userSeeked s \<or> seek_raised evs)
      \<and> should_exit s' = should_exit s
      \<and> (should_exit s \<or> userSeeked s \<longrightarrow> evs = [])
      \<and> (seek_raised evs \<longrightarrow>
            r = Inr False \<and>
            (\<exists>pre f. evs = pre @ [CallContains (last_cached_index s') False,
                                   CallGetFrame (last_cached_index s') (Inr f), CallAdd f True]
                     \<and> \<not> seek_raised pre)))"

text \<open>
  Where the walk of a batch stands when it ends: the frames visited are the walk from
  \<open>nf\<close>, each inside the far edge; and the walk stops at the next frame only because that
  frame is past the far edge, or an exit is requested (\<open>X\<close>), or \<^verbatim>\<open>userSeeked\<close> is set
  (\<open>Y\<close>), or the fetch of that frame raised. The second invariant of the loop.
\<close>

definition walk_post ::
  "int \<Rightarrow> int \<Rightarrow> int \<Rightarrow> int \<Rightarrow> bool \<Rightarrow> bool \<Rightarrow> (reader_error + bool) \<Rightarrow> call list \<Rightarrow> bool" where
  "walk_post wb we dir nf X Y r evs =
     (visited evs = walk_frames nf dir (length (visited evs))
      \<and> (\<forall>n\<in>set (visited evs). in_walk wb we dir n)
      \<and> (\<not> in_walk wb we dir (nf + int (length (visited evs)) * dir) \<or> X \<or> Y
         \<or> (\<exists>e pre. evs = pre @ [CallContains (nf + int (length (visited evs)) * dir) False,
                                 CallGetFrame (nf + int (length (visited evs)) * dir) (Inl e)]))
      \<and> (\<forall>e. r = Inl e \<longrightarrow>
            in_walk wb we dir (nf + int (length (visited evs)) * dir)
            \<and> (\<exists>pre. evs = pre @ [CallContains (nf + int (length (visited evs)) * dir) False,
                                   CallGetFrame (nf + int (length (visited evs)) * dir) (Inl e)])))"

subsection \<open>A seek from the consumer thread while a batch runs\<close>

text \<open>
  \<^verbatim>\<open>Seek(new_position, start_preroll)\<close> is called by the consumer (the player's thread), not
  by the worker. With \<^verbatim>\<open>start_preroll\<close> it sets \<^verbatim>\<open>userSeeked\<close> and clears the timeline's
  cache when the new position is not cached (\<^verbatim>\<open>reader->GetCache()\<close> is the cache object of
  the state); it always stores the requested frame.
\<close>

definition Seek :: "'c collaborators \<Rightarrow> int \<Rightarrow> bool \<Rightarrow> 'c VideoCacheThread \<Rightarrow> 'c VideoCacheThread" where
  "Seek env new_position start_preroll s =
     (let s1 = (if start_preroll
                then (let s0 = s\<lparr> userSeeked := True \<rparr>
                      in if \<not> cache_Contains env (cache s0) new_position
                         then s0\<lparr> cache := timeline_ClearAllCache env (cache s0) \<rparr>
                         else s0)
                else s)
      in s1\<lparr> requested_display_frame := new_position \<rparr>)"

text \<open>
  \<^verbatim>\<open>prefetchWindow\<close> reads \<^verbatim>\<open>userSeeked\<close> once per iteration (line 178), before
  \<^verbatim>\<open>Contains\<close>, \<^verbatim>\<open>GetFrame\<close> and \<^verbatim>\<open>Add\<close>. To follow a \<^verbatim>\<open>Seek\<close> that the consumer issues
  while the worker is inside an iteration, the loop is written a second time with the
  consumer's calls as a parameter: \<open>arrivals n = Some p\<close> says that \<^verbatim>\<open>Seek(p, true)\<close> runs
  while the worker handles frame \<open>n\<close>, right after the check of line 178 (the earliest point
  at which that iteration can no longer see it). The body is that of \<open>prefetch_loop\<close>
  otherwise, and without arrivals the two loops agree. The third component of the result is
  the trace of the worker's calls and the consumer's seeks, in the order they happen.
\<close>

datatype event = Worker call | ConsumerSeek int

definition seek_lands :: "'c collaborators \<Rightarrow> int option \<Rightarrow> 'c VideoCacheThread \<Rightarrow> 'c VideoCacheThread" where
  "seek_lands env a s = (case a of None \<Rightarrow> s | Some p \<Rightarrow> Seek env p True s)"

definition seek_event :: "int option \<Rightarrow> event list" where
  "seek_event a = (case a of None \<Rightarrow> [] | Some p \<Rightarrow> [ConsumerSeek p])"



text \<open>
  Reading a trace: the events after the first seek of the consumer, the positions sought,
  the frames the worker asked the cache for (every iteration begins with this question), and
  the worker's calls alone.
\<close>

fun after_seek :: "event list \<Rightarrow> event list" where
  "after_seek [] = []"
| "after_seek (ConsumerSeek p # rest) = rest"
| "after_seek (Worker c # rest) = after_seek rest"

fun seeks :: "event list \<Rightarrow> int list" where
  "seeks [] = []"
| "seeks (ConsumerSeek p # rest) = p # seeks rest"
| "seeks (Worker c # rest) = seeks rest"

fun queries :: "event list \<Rightarrow> int list" where
  "queries [] = []"
| "queries (Worker (CallContains n b) # rest) = n # queries rest"
| "queries (e # rest) = queries rest"



section \<open>ColorMap: loading a 3D lookup table\<close>














subsection \<open>What a .cube file supplies\<close>






subsection \<open>Example files\<close>



section \<open>Deinterlace\<close>

text \<open>
  Source: \<^verbatim>\<open>src/libopenshot/src/effects/Deinterlace.cpp\<close>. An image is its width and its
  scanlines, top first; the height is their number. C++ integer division truncates
  towards zero.
\<close>

record 'row qimage =
  img_width :: nat
  scanlines :: "'row list"

definition c_div :: "int \<Rightarrow> int \<Rightarrow> int" where
  "c_div a b = (if (a < 0) = (b < 0) then \<bar>a\<bar> div \<bar>b\<bar> else - (\<bar>a\<bar> div \<bar>b\<bar>))"

definition rows_to_copy :: "bool \<Rightarrow> 'row qimage \<Rightarrow> int" where
  "rows_to_copy isOdd img =
     (let original_height = int (length (scanlines img));
          start = (if isOdd then 1 else 0)
      in c_div (original_height - start + 1) 2)"

text \<open>
  The copy loop: row \<open>i\<close> of the new image is row \<open>start + 2 * i\<close> of the source. The
  \<^verbatim>\<open>memcpy\<close> reads the source without a bounds check, so a row outside the image is an
  error of the model (\<open>None\<close>).
\<close>

definition deinterlaced_image :: "bool \<Rightarrow> 'row qimage \<Rightarrow> 'row qimage option" where
  "deinterlaced_image isOdd img =
     (let original_height = int (length (scanlines img));
          start = (if isOdd then 1 else 0);
          rows = map (\<lambda>i. start + 2 * int i) [0..<nat (rows_to_copy isOdd img)]
      in if list_all (\<lambda>row. 0 \<le> row \<and> row < original_height) rows
         then Some \<lparr> img_width = img_width img,
                     scanlines = map (\<lambda>row. scanlines img ! nat row) rows \<rparr>
         else None)"

text \<open>
  \<^verbatim>\<open>GetFrame\<close> rescales the intermediate image to the original size with Qt's
  \<^verbatim>\<open>QImage::scaled\<close>, a parameter here.
\<close>

definition Deinterlace_GetFrame ::
  "('row qimage \<Rightarrow> nat \<Rightarrow> nat \<Rightarrow> 'row qimage) \<Rightarrow> bool \<Rightarrow> 'row qimage \<Rightarrow> 'row qimage option" where
  "Deinterlace_GetFrame scaled isOdd img =
     map_option (\<lambda>d. scaled d (img_width img) (length (scanlines img)))
       (deinterlaced_image isOdd img)"

definition four_rows :: "nat qimage" where
  "four_rows = \<lparr> img_width = 1, scanlines = [0, 1, 2, 3] \<rparr>"

definition five_rows :: "nat qimage" where
  "five_rows = \<lparr> img_width = 1, scanlines = [0, 1, 2, 3, 4] \<rparr>"

section \<open>Properties of the prefetch cache engine\<close>

subsection \<open>Unfolding the loop\<close>

declare prefetch_loop.simps [simp del]

lemma prefetch_loop_stop:
  "\<not> ((dir > 0 \<and> nf \<le> we) \<or> (dir < 0 \<and> nf \<ge> wb)) \<Longrightarrow>
   prefetch_loop env wb we dir full nf s = (Inr full, s)"
  by (subst prefetch_loop.simps) (simp only: if_False)

lemma prefetch_loop_break:
  "should_exit s \<or> userSeeked s \<Longrightarrow>
   prefetch_loop env wb we dir full nf s = (Inr full, s)"
  by (subst prefetch_loop.simps) (elim disjE; simp)

lemma prefetch_loop_touch:
  "(dir > 0 \<and> nf \<le> we) \<or> (dir < 0 \<and> nf \<ge> wb) \<Longrightarrow>
   \<not> should_exit s \<Longrightarrow> \<not> userSeeked s \<Longrightarrow> cache_Contains env (cache s) nf \<Longrightarrow>
   prefetch_loop env wb we dir full nf s =
     prefetch_loop env wb we dir full (nf + dir)
       (s\<lparr> cache := cache_Touch env nf (cache s), last_cached_index := nf,
            calls := calls s @ [CallContains nf True, CallTouch nf] \<rparr>)"
  by (subst prefetch_loop.simps) simp

lemma prefetch_loop_fetch:
  "(dir > 0 \<and> nf \<le> we) \<or> (dir < 0 \<and> nf \<ge> wb) \<Longrightarrow>
   \<not> should_exit s \<Longrightarrow> \<not> userSeeked s \<Longrightarrow> \<not> cache_Contains env (cache s) nf \<Longrightarrow>
   reader_GetFrame env nf = Inr f \<Longrightarrow>
   prefetch_loop env wb we dir full nf s =
     prefetch_loop env wb we dir False (nf + dir)
       (s\<lparr> cache := fst (cache_Add env f (cache s)),
            userSeeked := (userSeeked s \<or> snd (cache_Add env f (cache s))),
            cached_frame_count := cached_frame_count s + 1,
            last_cached_index := nf,
            calls := calls s @ [CallContains nf False, CallGetFrame nf (Inr f),
                                CallAdd f (snd (cache_Add env f (cache s)))] \<rparr>)"
  by (subst prefetch_loop.simps) simp

lemma prefetch_loop_raise:
  "(dir > 0 \<and> nf \<le> we) \<or> (dir < 0 \<and> nf \<ge> wb) \<Longrightarrow>
   \<not> should_exit s \<Longrightarrow> \<not> userSeeked s \<Longrightarrow> \<not> cache_Contains env (cache s) nf \<Longrightarrow>
   reader_GetFrame env nf = Inl e \<Longrightarrow>
   prefetch_loop env wb we dir full nf s =
     ((if e = OutOfBoundsFrame then Inr full else Inl e),
      s\<lparr> calls := calls s @ [CallContains nf False, CallGetFrame nf (Inl e)] \<rparr>)"
  by (subst prefetch_loop.simps) (cases e; simp)


lemma cache_after_append [simp]:
  "cache_after env c (xs @ ys) = cache_after env (cache_after env c xs) ys"
  by (induction env c xs rule: cache_after.induct) auto

lemma log_consistent_append [simp]:
  "log_consistent env c (xs @ ys)
     = (log_consistent env c xs \<and> log_consistent env (cache_after env c xs) ys)"
  by (induction env c xs rule: log_consistent.induct) auto

lemma log_consistent_GetFrame:
  "log_consistent env c evs \<Longrightarrow> CallGetFrame n x \<in> set evs \<Longrightarrow> x = reader_GetFrame env n"
  by (induction env c evs rule: log_consistent.induct) auto

lemma seek_raised_append [simp]: "seek_raised (xs @ ys) = (seek_raised xs \<or> seek_raised ys)"
  by (induction xs rule: seek_raised.induct) auto

lemma batch_post_stop: "batch_post env full nf dir s (Inr full) s []"
  by (simp add: batch_post_def)

lemma batch_post_raise:
  "e \<noteq> OutOfBoundsFrame \<Longrightarrow> \<not> should_exit s \<Longrightarrow> \<not> userSeeked s \<Longrightarrow>
   reader_GetFrame env nf = Inl e \<Longrightarrow> \<not> cache_Contains env (cache s) nf \<Longrightarrow>
   batch_post env full nf dir s (Inl e)
     (s\<lparr> calls := calls s @ [CallContains nf False, CallGetFrame nf (Inl e)] \<rparr>)
     [CallContains nf False, CallGetFrame nf (Inl e)]"
  by (simp add: batch_post_def)

lemma batch_post_oob:
  "\<not> should_exit s \<Longrightarrow> \<not> userSeeked s \<Longrightarrow>
   reader_GetFrame env nf = Inl OutOfBoundsFrame \<Longrightarrow> \<not> cache_Contains env (cache s) nf \<Longrightarrow>
   batch_post env full nf dir s (Inr full)
     (s\<lparr> calls := calls s @ [CallContains nf False, CallGetFrame nf (Inl OutOfBoundsFrame)] \<rparr>)
     [CallContains nf False, CallGetFrame nf (Inl OutOfBoundsFrame)]"
  by (simp add: batch_post_def)

lemma batch_post_step:
  assumes post: "batch_post env full' (nf + dir) dir t r s' evs"
    and run: "\<not> should_exit s" "\<not> userSeeked s"
    and t: "calls t = calls s @ blk" "last_cached_index t = nf"
      "cached_frame_count t = cached_frame_count s + int (length (added blk))"
      "userSeeked t = seek_raised blk" "should_exit t = should_exit s"
    and blk: "batch_shape nf dir (blk @ evs) = batch_shape (nf + dir) dir evs"
      "visited (blk @ evs) = nf # visited evs"
      "added (blk @ evs) = added blk @ added evs"
      "full' = (full \<and> added blk = [])"
      "\<not> seek_raised blk"
      "log_consistent env (cache s) blk"
      "cache t = cache_after env (cache s) blk"
  shows "batch_post env full nf dir s r s' (blk @ evs)"
proof -
  from post [unfolded batch_post_def]
  have p1: "calls s' = calls t @ evs"
    and p2: "batch_shape (nf + dir) dir evs"
    and p3: "last_cached_index s' = last (last_cached_index t # visited evs)"
    and p4: "cached_frame_count s' = cached_frame_count t + int (length (added evs))"
    and p5: "\<forall>b. r = Inr b \<longrightarrow> b = (full' \<and> added evs = [])"
    and p6: "\<forall>e. r = Inl e \<longrightarrow> e \<noteq> OutOfBoundsFrame \<and>
             (\<exists>pre n. evs = pre @ [CallContains n False, CallGetFrame n (Inl e)])"
    and p6': "log_consistent env (cache t) evs"
    and p6'': "cache s' = cache_after env (cache t) evs"
    and p7: "userSeeked s' = (userSeeked t \<or> seek_raised evs)"
    and p8: "should_exit s' = should_exit t"
    and p9: "seek_raised evs \<longrightarrow> r = Inr False \<and>
            (\<exists>pre f. evs = pre @ [CallContains (last_cached_index s') False,
                                   CallGetFrame (last_cached_index s') (Inr f), CallAdd f True]
                     \<and> \<not> seek_raised pre)"
    by blast+
  have c1: "calls s' = calls s @ (blk @ evs)" using p1 t by simp
  have c2: "batch_shape nf dir (blk @ evs)" using p2 blk by simp
  have c3: "last_cached_index s' = last (last_cached_index s # visited (blk @ evs))"
    using p3 t blk by simp
  have c4: "cached_frame_count s' = cached_frame_count s + int (length (added (blk @ evs)))"
    using p4 t blk by simp
  have c5: "\<forall>b. r = Inr b \<longrightarrow> b = (full \<and> added (blk @ evs) = [])"
    using p5 blk by simp
  have c6: "\<forall>e. r = Inl e \<longrightarrow> e \<noteq> OutOfBoundsFrame \<and>
             (\<exists>pre n. blk @ evs = pre @ [CallContains n False, CallGetFrame n (Inl e)])"
  proof (intro allI impI)
    fix e assume "r = Inl e"
    with p6 obtain pre n where "e \<noteq> OutOfBoundsFrame"
      "evs = pre @ [CallContains n False, CallGetFrame n (Inl e)]" by blast
    then have "e \<noteq> OutOfBoundsFrame"
      "blk @ evs = (blk @ pre) @ [CallContains n False, CallGetFrame n (Inl e)]" by simp_all
    then show "e \<noteq> OutOfBoundsFrame \<and>
             (\<exists>pre n. blk @ evs = pre @ [CallContains n False, CallGetFrame n (Inl e)])"
      by blast
  qed
  have c6': "log_consistent env (cache s) (blk @ evs)"
    using p6' blk by simp
  have c6'': "cache s' = cache_after env (cache s) (blk @ evs)"
    using p6'' blk by simp
  have c7: "userSeeked s' = (userSeeked s \<or> seek_raised (blk @ evs))"
    using p7 t run blk by simp
  have c8: "should_exit s' = should_exit s" using p8 t by simp
  have c9: "should_exit s \<or> userSeeked s \<longrightarrow> blk @ evs = []" using run by simp
  have c10: "seek_raised (blk @ evs) \<longrightarrow> r = Inr False \<and>
            (\<exists>pre f. blk @ evs = pre @ [CallContains (last_cached_index s') False,
                                   CallGetFrame (last_cached_index s') (Inr f), CallAdd f True]
                     \<and> \<not> seek_raised pre)"
  proof
    assume "seek_raised (blk @ evs)"
    with blk have "seek_raised evs" by simp
    with p9 obtain pre f where r: "r = Inr False"
      and "evs = pre @ [CallContains (last_cached_index s') False,
                        CallGetFrame (last_cached_index s') (Inr f), CallAdd f True]"
      and "\<not> seek_raised pre" by blast
    then have "blk @ evs = (blk @ pre) @ [CallContains (last_cached_index s') False,
                        CallGetFrame (last_cached_index s') (Inr f), CallAdd f True]"
      and "\<not> seek_raised (blk @ pre)" using blk by simp_all
    with r show "r = Inr False \<and>
            (\<exists>pre f. blk @ evs = pre @ [CallContains (last_cached_index s') False,
                                   CallGetFrame (last_cached_index s') (Inr f), CallAdd f True]
                     \<and> \<not> seek_raised pre)" by blast
  qed
  show ?thesis unfolding batch_post_def
    using c1 c2 c3 c4 c5 c6 c6' c6'' c7 c8 c9 c10 by blast
qed

lemma batch_post_touch:
  assumes "batch_post env full (nf + dir) dir
             (s\<lparr> cache := cache_Touch env nf (cache s), last_cached_index := nf,
                  calls := calls s @ [CallContains nf True, CallTouch nf] \<rparr>) r s' evs"
    and "\<not> should_exit s" "\<not> userSeeked s"
    and hit: "cache_Contains env (cache s) nf"
  shows "batch_post env full nf dir s r s' (CallContains nf True # CallTouch nf # evs)"
  using batch_post_step [OF assms(1-3), of "[CallContains nf True, CallTouch nf]" full] assms(3) hit
  by simp

lemma batch_post_fetch:
  assumes "batch_post env False (nf + dir) dir
             (s\<lparr> cache := fst (cache_Add env f (cache s)),
                  userSeeked := (userSeeked s \<or> snd (cache_Add env f (cache s))),
                  cached_frame_count := cached_frame_count s + 1,
                  last_cached_index := nf,
                  calls := calls s @ [CallContains nf False, CallGetFrame nf (Inr f),
                                      CallAdd f (snd (cache_Add env f (cache s)))] \<rparr>) r s' evs"
    and "\<not> should_exit s" "\<not> userSeeked s"
    and rd: "reader_GetFrame env nf = Inr f"
    and miss: "\<not> cache_Contains env (cache s) nf"
  shows "batch_post env full nf dir s r s'
           (CallContains nf False # CallGetFrame nf (Inr f)
            # CallAdd f (snd (cache_Add env f (cache s))) # evs)"
proof (cases "snd (cache_Add env f (cache s))")
  case True
  with assms have "evs = []" unfolding batch_post_def by simp
  with assms True show ?thesis unfolding batch_post_def by (cases r) auto
next
  case False
  with batch_post_step [OF assms(1-3),
      of "[CallContains nf False, CallGetFrame nf (Inr f),
           CallAdd f (snd (cache_Add env f (cache s)))]" full] assms(3) rd miss
  show ?thesis by simp
qed

lemma prefetch_loop_post:
  "\<exists>evs. batch_post env full nf dir s
            (fst (prefetch_loop env wb we dir full nf s))
            (snd (prefetch_loop env wb we dir full nf s)) evs"
proof (induction env wb we dir full nf s rule: prefetch_loop.induct)
  case (1 env wb we dir full nf s)
  show ?case
  proof (cases "(dir > 0 \<and> nf \<le> we) \<or> (dir < 0 \<and> nf \<ge> wb)")
    case False
    then show ?thesis
      using batch_post_stop [of env full nf dir s] by (auto simp: prefetch_loop_stop)
  next
    case go: True
    show ?thesis
    proof (cases "should_exit s \<or> userSeeked s")
      case True
      then show ?thesis
        using batch_post_stop [of env full nf dir s] by (auto simp: prefetch_loop_break)
    next
      case run: False
      show ?thesis
      proof (cases "cache_Contains env (cache s) nf")
        case True
        from "1.IH"(2) [OF go] run True
        obtain evs where "batch_post env full (nf + dir) dir
             (s\<lparr> cache := cache_Touch env nf (cache s), last_cached_index := nf,
                  calls := calls s @ [CallContains nf True, CallTouch nf] \<rparr>)
             (fst (prefetch_loop env wb we dir full nf s))
             (snd (prefetch_loop env wb we dir full nf s)) evs"
          using go by (auto simp: prefetch_loop_touch [of dir nf we wb s env full])
        from batch_post_touch [OF this _ _ True] run show ?thesis by blast
      next
        case miss: False
        show ?thesis
        proof (cases "reader_GetFrame env nf")
          case (Inl e)
          with go run miss
          have eq: "prefetch_loop env wb we dir full nf s =
              ((if e = OutOfBoundsFrame then Inr full else Inl e),
               s\<lparr> calls := calls s @ [CallContains nf False, CallGetFrame nf (Inl e)] \<rparr>)"
            by (simp add: prefetch_loop_raise)
          show ?thesis
          proof (cases "e = OutOfBoundsFrame")
            case True
            with eq Inl run miss batch_post_oob [of s env nf full dir] show ?thesis by auto
          next
            case False
            with eq Inl run miss batch_post_raise [of e s env nf full dir] show ?thesis by auto
          qed
        next
          case (Inr f)
          from "1.IH"(1) [OF go _ _ _ Inr] run miss
          obtain evs where "batch_post env False (nf + dir) dir
             (s\<lparr> cache := fst (cache_Add env f (cache s)),
                  userSeeked := (userSeeked s \<or> snd (cache_Add env f (cache s))),
                  cached_frame_count := cached_frame_count s + 1,
                  last_cached_index := nf,
                  calls := calls s @ [CallContains nf False, CallGetFrame nf (Inr f),
                                      CallAdd f (snd (cache_Add env f (cache s)))] \<rparr>)
             (fst (prefetch_loop env wb we dir full nf s))
             (snd (prefetch_loop env wb we dir full nf s)) evs"
            using go Inr by (auto simp: prefetch_loop_fetch [of dir nf we wb s env f full])
          from batch_post_fetch [OF this _ _ Inr miss] run show ?thesis by blast
        qed
      qed
    qed
  qed
qed


subsection \<open>Consequences of the loop invariant, and the scenarios\<close>

lemma prefetchWindow_post:
  assumes "prefetchWindow env wb we dir s = (r, s')"
  shows "batch_post env True (last_cached_index s + dir) dir s r s' (batch_calls s s')"
proof -
  from prefetch_loop_post [of env True "last_cached_index s + dir" dir s wb we] assms
  obtain evs where post: "batch_post env True (last_cached_index s + dir) dir s r s' evs"
    by (auto simp: prefetchWindow_def)
  then have "calls s' = calls s @ evs" by (simp add: batch_post_def)
  then have "batch_calls s s' = evs" by (simp add: batch_calls_def)
  with post show ?thesis by simp
qed

lemma evict_lru_fits:
  "sum_list (map bytes fs) \<le> mb \<Longrightarrow> int (length fs) \<le> mf \<Longrightarrow> evict_lru mb mf fs = fs"
  by (subst evict_lru.simps) simp

lemmas scenario_defs =
  prefetchWindow_def VideoCacheThread_init_def CacheMemory_new_def memory_env_def
  interrupting_env_def test_reader_def CacheMemory_Contains_def CacheMemory_Add_def
  CacheMemory_Touch_def evict_lru_fits


lemma prefetch_loop_forward_ignores_begin:
  "0 < dir \<Longrightarrow>
   prefetch_loop env wb we dir full nf s = prefetch_loop env wb' we dir full nf s"
proof (induction env wb we dir full nf s rule: prefetch_loop.induct)
  case (1 env wb we dir full nf s)
  note pos = \<open>0 < dir\<close>
  show ?case
  proof (cases "nf \<le> we")
    case False
    with pos show ?thesis by (simp add: prefetch_loop_stop)
  next
    case True
    with pos have go: "(dir > 0 \<and> nf \<le> we) \<or> (dir < 0 \<and> nf \<ge> wb)"
      and go': "(dir > 0 \<and> nf \<le> we) \<or> (dir < 0 \<and> nf \<ge> wb')" by simp_all
    show ?thesis
    proof (cases "should_exit s \<or> userSeeked s")
      case True
      then show ?thesis by (simp add: prefetch_loop_break)
    next
      case run: False
      show ?thesis
      proof (cases "cache_Contains env (cache s) nf")
        case True
        with go go' run "1.IH"(2) [OF go _ _ _ pos] show ?thesis
          by (simp add: prefetch_loop_touch)
      next
        case miss: False
        show ?thesis
        proof (cases "reader_GetFrame env nf")
          case (Inl e)
          with go go' run miss show ?thesis by (simp add: prefetch_loop_raise)
        next
          case (Inr f)
          with go go' run miss "1.IH"(1) [OF go _ _ _ Inr pos] show ?thesis
            by (simp add: prefetch_loop_fetch)
        qed
      qed
    qed
  qed
qed

lemma prefetch_loop_backward_ignores_end:
  "dir < 0 \<Longrightarrow>
   prefetch_loop env wb we dir full nf s = prefetch_loop env wb we' dir full nf s"
proof (induction env wb we dir full nf s rule: prefetch_loop.induct)
  case (1 env wb we dir full nf s)
  note neg = \<open>dir < 0\<close>
  show ?case
  proof (cases "nf \<ge> wb")
    case False
    with neg show ?thesis by (simp add: prefetch_loop_stop)
  next
    case True
    with neg have go: "(dir > 0 \<and> nf \<le> we) \<or> (dir < 0 \<and> nf \<ge> wb)"
      and go': "(dir > 0 \<and> nf \<le> we') \<or> (dir < 0 \<and> nf \<ge> wb)" by simp_all
    show ?thesis
    proof (cases "should_exit s \<or> userSeeked s")
      case True
      then show ?thesis by (simp add: prefetch_loop_break)
    next
      case run: False
      show ?thesis
      proof (cases "cache_Contains env (cache s) nf")
        case True
        with go go' run "1.IH"(2) [OF go _ _ _ neg] show ?thesis
          by (simp add: prefetch_loop_touch)
      next
        case miss: False
        show ?thesis
        proof (cases "reader_GetFrame env nf")
          case (Inl e)
          with go go' run miss show ?thesis by (simp add: prefetch_loop_raise)
        next
          case (Inr f)
          with go go' run miss "1.IH"(1) [OF go _ _ _ Inr neg] show ?thesis
            by (simp add: prefetch_loop_fetch)
        qed
      qed
    qed
  qed
qed

lemma prefetch_loop_calls_prefix:
  "\<exists>rest. calls (snd (prefetch_loop env wb we dir full nf s)) = calls s @ rest"
  using prefetch_loop_post [of env full nf dir s wb we] by (auto simp: batch_post_def)

lemma batch_calls_append: "calls s' = calls s @ evs \<Longrightarrow> batch_calls s s' = evs"
  by (simp add: batch_calls_def)

lemma prefetchWindow_first_fetch:
  assumes go: "(dir > 0 \<and> last_cached_index s + dir \<le> we) \<or> (dir < 0 \<and> last_cached_index s + dir \<ge> wb)"
    and run: "\<not> should_exit s" "\<not> userSeeked s"
    and miss: "\<not> cache_Contains env (cache s) (last_cached_index s + dir)"
    and rd: "reader_GetFrame env (last_cached_index s + dir) = Inr f"
  shows "\<exists>rest. batch_calls s (snd (prefetchWindow env wb we dir s)) =
           CallContains (last_cached_index s + dir) False
           # CallGetFrame (last_cached_index s + dir) (Inr f)
           # CallAdd f (snd (cache_Add env f (cache s))) # rest"
proof -
  let ?n = "last_cached_index s + dir"
  let ?t = "s\<lparr> cache := fst (cache_Add env f (cache s)),
            userSeeked := (userSeeked s \<or> snd (cache_Add env f (cache s))),
            cached_frame_count := cached_frame_count s + 1,
            last_cached_index := ?n,
            calls := calls s @ [CallContains ?n False, CallGetFrame ?n (Inr f),
                                CallAdd f (snd (cache_Add env f (cache s)))] \<rparr>"
  have "prefetchWindow env wb we dir s = prefetch_loop env wb we dir False (?n + dir) ?t"
    unfolding prefetchWindow_def using prefetch_loop_fetch [OF go run miss rd] .
  moreover obtain rest where
    "calls (snd (prefetch_loop env wb we dir False (?n + dir) ?t)) = calls ?t @ rest"
    using prefetch_loop_calls_prefix by blast
  ultimately have "calls (snd (prefetchWindow env wb we dir s)) =
      calls s @ (CallContains ?n False # CallGetFrame ?n (Inr f)
                 # CallAdd f (snd (cache_Add env f (cache s))) # rest)" by simp
  from batch_calls_append [OF this] show ?thesis by blast
qed

lemma prefetchWindow_first_query:
  assumes go: "(dir > 0 \<and> last_cached_index s + dir \<le> we) \<or> (dir < 0 \<and> last_cached_index s + dir \<ge> wb)"
    and run: "\<not> should_exit s" "\<not> userSeeked s"
  shows "\<exists>rest. batch_calls s (snd (prefetchWindow env wb we dir s)) =
           CallContains (last_cached_index s + dir)
             (cache_Contains env (cache s) (last_cached_index s + dir)) # rest"
proof -
  let ?n = "last_cached_index s + dir"
  show ?thesis
  proof (cases "cache_Contains env (cache s) ?n")
    case True
    let ?t = "s\<lparr> cache := cache_Touch env ?n (cache s), last_cached_index := ?n,
            calls := calls s @ [CallContains ?n True, CallTouch ?n] \<rparr>"
    have "prefetchWindow env wb we dir s = prefetch_loop env wb we dir True (?n + dir) ?t"
      unfolding prefetchWindow_def using prefetch_loop_touch [OF go run True] .
    moreover obtain rest where
      "calls (snd (prefetch_loop env wb we dir True (?n + dir) ?t)) = calls ?t @ rest"
      using prefetch_loop_calls_prefix by blast
    ultimately have "calls (snd (prefetchWindow env wb we dir s)) =
      calls s @ (CallContains ?n True # CallTouch ?n # rest)" by simp
    from batch_calls_append [OF this] True show ?thesis by simp
  next
    case miss: False
    show ?thesis
    proof (cases "reader_GetFrame env ?n")
      case (Inl e)
      from prefetch_loop_raise [OF go run miss Inl]
      have "calls (snd (prefetchWindow env wb we dir s)) =
        calls s @ (CallContains ?n False # [CallGetFrame ?n (Inl e)])"
        by (simp add: prefetchWindow_def)
      from batch_calls_append [OF this] miss show ?thesis by simp
    next
      case (Inr f)
      from prefetchWindow_first_fetch [OF go run miss Inr] miss show ?thesis by auto
    qed
  qed
qed


lemmas scenario_simps = scenario_defs test_thread_def

lemma scenario_forward:
  assumes "5 \<le> len"
  shows "prefetchWindow (memory_env (test_reader len)) 1 5 1 (test_thread 0) =
    (Inr False,
     (test_thread 5)\<lparr>
        cached_frame_count := 5,
        cache := \<lparr> entries = map (\<lambda>n. \<lparr> number = n, bytes = 3686400 \<rparr>) [5, 4, 3, 2, 1],
                   max_bytes = 100000000, max_frames = 30 \<rparr>,
        calls := concat (map (\<lambda>n. [CallContains n False,
                                     CallGetFrame n (Inr \<lparr> number = n, bytes = 3686400 \<rparr>),
                                     CallAdd \<lparr> number = n, bytes = 3686400 \<rparr> False])
                          [1, 2, 3, 4, 5]) \<rparr>)"
  using assms
  apply (simp add: scenario_simps)
  apply (subst prefetch_loop.simps, simp add: scenario_simps)+
  done

lemma scenario_forward_again:
  assumes "5 \<le> len"
  shows "prefetchWindow (memory_env (test_reader len)) 1 5 1
           (snd (prefetchWindow (memory_env (test_reader len)) 1 5 1 (test_thread 0))) =
         (Inr True, snd (prefetchWindow (memory_env (test_reader len)) 1 5 1 (test_thread 0)))"
  unfolding scenario_forward [OF assms]
  by (simp add: prefetchWindow_def prefetch_loop_stop test_thread_def)

lemma scenario_backward:
  assumes "16 \<le> len"
  shows "prefetchWindow (memory_env (test_reader len)) 10 15 (- 1) (test_thread 16) =
    (Inr False,
     (test_thread 10)\<lparr>
        cached_frame_count := 6,
        cache := \<lparr> entries = map (\<lambda>n. \<lparr> number = n, bytes = 3686400 \<rparr>) [10, 11, 12, 13, 14, 15],
                   max_bytes = 100000000, max_frames = 30 \<rparr>,
        calls := concat (map (\<lambda>n. [CallContains n False,
                                     CallGetFrame n (Inr \<lparr> number = n, bytes = 3686400 \<rparr>),
                                     CallAdd \<lparr> number = n, bytes = 3686400 \<rparr> False])
                          [15, 14, 13, 12, 11, 10]) \<rparr>)"
  using assms
  apply (simp add: scenario_simps)
  apply (subst prefetch_loop.simps, simp add: scenario_simps)+
  done


text \<open>
  A reader of 3 frames under the window \<open>[1, 5]\<close>: the fetch of frame 4 raises
  \<^verbatim>\<open>OutOfBoundsFrame\<close>, which ends the batch; frame 4 is not added and
  \<open>last_cached_index\<close> stays at 3.
\<close>

lemma scenario_short_reader:
  "prefetchWindow (memory_env (test_reader 3)) 1 5 1 (test_thread 0) =
    (Inr False,
     (test_thread 3)\<lparr>
        cached_frame_count := 3,
        cache := \<lparr> entries = map (\<lambda>n. \<lparr> number = n, bytes = 3686400 \<rparr>) [3, 2, 1],
                   max_bytes = 100000000, max_frames = 30 \<rparr>,
        calls := concat (map (\<lambda>n. [CallContains n False,
                                     CallGetFrame n (Inr \<lparr> number = n, bytes = 3686400 \<rparr>),
                                     CallAdd \<lparr> number = n, bytes = 3686400 \<rparr> False])
                          [1, 2, 3]) @ [CallContains 4 False, CallGetFrame 4 (Inl OutOfBoundsFrame)] \<rparr>)"
  apply (simp add: scenario_simps)
  apply (subst prefetch_loop.simps, simp add: scenario_simps)+
  done

subsection \<open>Speed and direction\<close>

lemma setSpeed_all_inv:
  "last_dir s \<in> {-1, 1} \<Longrightarrow> last_speed s \<noteq> 0 \<Longrightarrow>
   last_dir (setSpeed_all vs s) \<in> {-1, 1} \<and> last_speed (setSpeed_all vs s) \<noteq> 0"
  unfolding setSpeed_all_def
  by (induction vs arbitrary: s) (auto simp: setSpeed_def Let_def)

lemma setSpeed_all_zeros:
  "last_dir (setSpeed_all (replicate n 0) s) = last_dir s \<and>
   last_speed (setSpeed_all (replicate n 0) s) = last_speed s \<and>
   speed (setSpeed_all (replicate (Suc n) 0) s) = 0"
  unfolding setSpeed_all_def
  by (induction n arbitrary: s) (auto simp: setSpeed_def Let_def)

text \<open>
  Claim C2. From the constructor's state, after any sequence \<open>vs\<close> of \<^verbatim>\<open>setSpeed\<close> calls,
  \<open>last_dir\<close> is \<open>-1\<close> or \<open>+1\<close> (initially \<open>+1\<close>) and \<open>last_speed\<close> is not zero;
  \<^verbatim>\<open>setSpeed(0)\<close> changes neither \<open>last_speed\<close> nor \<open>last_dir\<close>, in any state; and after
  \<^verbatim>\<open>setSpeed(v)\<close> with \<open>v \<noteq> 0\<close> followed by one or more \<^verbatim>\<open>setSpeed(0)\<close>,
  \<^verbatim>\<open>computeDirection()\<close> is the sign of \<open>v\<close>: pausing never flips the direction.
\<close>

theorem setSpeed_direction_preserved:
  "last_dir (VideoCacheThread_init c) = 1 \<and>
   last_dir (setSpeed_all vs (VideoCacheThread_init c)) \<in> {-1, 1} \<and>
   last_speed (setSpeed_all vs (VideoCacheThread_init c)) \<noteq> 0 \<and>
   last_speed (setSpeed 0 s) = last_speed s \<and>
   last_dir (setSpeed 0 s) = last_dir s \<and>
   (v \<noteq> 0 \<longrightarrow>
      computeDirection (setSpeed 0 (setSpeed v s)) = sgn v \<and>
      computeDirection (setSpeed_all (replicate (Suc n) 0) (setSpeed v s)) = sgn v)"
proof -
  have init: "last_dir (VideoCacheThread_init c) \<in> {-1, 1}" "last_speed (VideoCacheThread_init c) \<noteq> 0"
    by (simp_all add: VideoCacheThread_init_def)
  have a: "last_dir (VideoCacheThread_init c) = 1"
    by (simp add: VideoCacheThread_init_def)
  have b: "last_dir (setSpeed_all vs (VideoCacheThread_init c)) \<in> {-1, 1} \<and>
           last_speed (setSpeed_all vs (VideoCacheThread_init c)) \<noteq> 0"
    using setSpeed_all_inv [OF init] .
  have c: "last_speed (setSpeed 0 s) = last_speed s \<and> last_dir (setSpeed 0 s) = last_dir s"
    by (simp add: setSpeed_def)
  have d: "computeDirection (setSpeed 0 (setSpeed v s)) = sgn v" if "v \<noteq> 0"
    using that by (simp add: setSpeed_def computeDirection_def Let_def sgn_if)
  have e: "computeDirection (setSpeed_all (replicate (Suc n) 0) (setSpeed v s)) = sgn v" if "v \<noteq> 0"
  proof -
    let ?t = "setSpeed_all (replicate (Suc n) 0) (setSpeed v s)"
    have "speed ?t = 0" using setSpeed_all_zeros [of n "setSpeed v s"] by simp
    moreover have "last_dir ?t = last_dir (setSpeed v s)"
      using setSpeed_all_zeros [of "Suc n" "setSpeed v s"] by simp
    ultimately show ?thesis using that
      by (simp add: computeDirection_def setSpeed_def Let_def sgn_if)
  qed
  show ?thesis using a b c d e by blast
qed

theorem setSpeed_direction_preserved_witness:
  "last_dir (setSpeed_all [3, -2, 0] (VideoCacheThread_init ())) \<in> {-1, 1} \<and>
   computeDirection (setSpeed 0 (setSpeed (-2) (VideoCacheThread_init ()))) = -1 \<and>
   computeDirection (setSpeed_all (replicate (Suc 2) 0) (setSpeed (-2) (VideoCacheThread_init ()))) = -1"
  using setSpeed_direction_preserved [of "()" "[3, -2, 0]" "VideoCacheThread_init ()" "-2" 2]
  by simp

subsection \<open>The caching window\<close>

text \<open>
  Where the code keeps the window inside the timeline: the lower bound is clamped from
  below and the upper bound from above, so a playhead on the timeline gives a well-formed
  window.
\<close>

lemma computeWindowBounds_on_timeline:
  "1 \<le> fst (computeWindowBounds playhead dir ahead_count timeline_end) \<and>
   snd (computeWindowBounds playhead dir ahead_count timeline_end) \<le> timeline_end \<and>
   (1 \<le> playhead \<and> playhead \<le> timeline_end \<and> 0 \<le> ahead_count \<longrightarrow>
      fst (computeWindowBounds playhead dir ahead_count timeline_end)
        \<le> snd (computeWindowBounds playhead dir ahead_count timeline_end))"
  by (simp add: computeWindowBounds_def)

text \<open>
  Claim C3. The claim asks, for every playhead, direction and \<open>ahead_count \<ge> 0\<close>, for a
  window with \<open>1 \<le> wb\<close>, \<open>we \<le> timeline_end\<close> and \<open>wb \<le> we\<close>; the header documents the
  method as "Always clamps to [1 ... timeline_end]" and the body comments its last two
  statements with "Clamp to [1 ... timeline_end]". The code clamps \<open>window_begin\<close> from below
  only and \<open>window_end\<close> from above only. With the playhead at 100 on a timeline of 50 frames,
  forward, 5 frames ahead, it returns \<open>(100, 50)\<close>: \<open>window_begin\<close> lies above
  \<open>timeline_end\<close> and above \<open>window_end\<close>.
\<close>

theorem computeWindowBounds_unclamped:
  "computeWindowBounds 100 1 5 50 = (100, 50)
   \<and> 50 < fst (computeWindowBounds 100 1 5 50)
   \<and> snd (computeWindowBounds 100 1 5 50) < fst (computeWindowBounds 100 1 5 50)"
  by (simp add: computeWindowBounds_def)

subsection \<open>The prefetch batch\<close>

lemma walk_frames_Suc: "walk_frames n d (Suc k) = n # walk_frames (n + d) d k"
proof -
  have "[0..<Suc k] = 0 # map Suc [0..<k]"
    by (simp add: upt_conv_Cons map_Suc_upt del: upt_Suc)
  then show ?thesis
    by (simp add: walk_frames_def algebra_simps del: upt_Suc)
qed

lemma walk_frames_forward: "walk_frames a 1 (nat (b - a + 1)) = [a..b]"
  by (rule nth_equalityI) (simp_all add: walk_frames_def)

lemma walk_frames_backward: "walk_frames b (- 1) (nat (b - a + 1)) = rev [a..b]"
proof (rule nth_equalityI)
  show "length (walk_frames b (- 1) (nat (b - a + 1))) = length (rev [a..b])"
    by (simp add: walk_frames_def)
next
  fix i assume "i < length (walk_frames b (- 1) (nat (b - a + 1)))"
  then have i: "i < nat (b - a + 1)" by (simp add: walk_frames_def)
  then have "rev [a..b] ! i = [a..b] ! (nat (b - a + 1) - Suc i)"
    by (simp add: rev_nth)
  also have "\<dots> = a + int (nat (b - a + 1) - Suc i)"
    using i by (intro nth_upto) linarith
  also have "\<dots> = b - int i" using i by linarith
  finally show "walk_frames b (- 1) (nat (b - a + 1)) ! i = rev [a..b] ! i"
    using i by (simp add: walk_frames_def)
qed

lemma last_upto: "a \<le> b \<Longrightarrow> last [a..b] = b"
  by (subst upto_rec2) simp_all

lemma batch_shape_visited:
  "batch_shape n d evs \<Longrightarrow> m \<in> set (visited evs) \<Longrightarrow>
   (CallContains m True \<in> set evs \<and> CallTouch m \<in> set evs)
   \<or> (\<exists>f b. CallContains m False \<in> set evs \<and> CallGetFrame m (Inr f) \<in> set evs
             \<and> CallAdd f b \<in> set evs)"
  by (induction n d evs rule: batch_shape.induct) auto

lemma walk_step:
  assumes IH: "walk_post wb we dir (nf + dir) X Y r rest"
    and vis: "visited (blk @ rest) = nf # visited rest"
    and go: "in_walk wb we dir nf"
  shows "walk_post wb we dir nf X Y r (blk @ rest)"
proof -
  let ?k = "length (visited rest)"
  let ?nx = "nf + dir + int ?k * dir"
  have nx: "nf + int (length (visited (blk @ rest))) * dir = ?nx"
    by (simp add: vis algebra_simps)
  from IH [unfolded walk_post_def]
  have i1: "visited rest = walk_frames (nf + dir) dir ?k"
    and i2: "\<forall>n\<in>set (visited rest). in_walk wb we dir n"
    and i3: "\<not> in_walk wb we dir ?nx \<or> X \<or> Y
         \<or> (\<exists>e pre. rest = pre @ [CallContains ?nx False, CallGetFrame ?nx (Inl e)])"
    and i4: "\<forall>e. r = Inl e \<longrightarrow> in_walk wb we dir ?nx
            \<and> (\<exists>pre. rest = pre @ [CallContains ?nx False, CallGetFrame ?nx (Inl e)])"
    by blast+
  have a: "visited (blk @ rest) = walk_frames nf dir (length (visited (blk @ rest)))"
    using i1 by (simp add: vis walk_frames_Suc)
  have b: "\<forall>n\<in>set (visited (blk @ rest)). in_walk wb we dir n"
    using i2 go by (simp add: vis)
  have c: "\<exists>pre. blk @ rest = pre @ [CallContains ?nx False, CallGetFrame ?nx (Inl e)]"
    if "\<exists>pre. rest = pre @ [CallContains ?nx False, CallGetFrame ?nx (Inl e)]" for e
  proof -
    from that obtain pre where "rest = pre @ [CallContains ?nx False, CallGetFrame ?nx (Inl e)]"
      by blast
    then have "blk @ rest = (blk @ pre) @ [CallContains ?nx False, CallGetFrame ?nx (Inl e)]"
      by simp
    then show ?thesis by blast
  qed
  from i3 c have d: "\<not> in_walk wb we dir ?nx \<or> X \<or> Y
          \<or> (\<exists>e pre. blk @ rest = pre @ [CallContains ?nx False, CallGetFrame ?nx (Inl e)])"
    by blast
  from i4 c have e: "\<forall>e. r = Inl e \<longrightarrow> in_walk wb we dir ?nx
            \<and> (\<exists>pre. blk @ rest = pre @ [CallContains ?nx False, CallGetFrame ?nx (Inl e)])"
    by blast
  from a b d e show ?thesis unfolding walk_post_def nx by blast
qed

lemma prefetch_loop_walk:
  "calls (snd (prefetch_loop env wb we dir full nf s)) = calls s @ evs \<Longrightarrow>
   walk_post wb we dir nf (should_exit s)
     (userSeeked (snd (prefetch_loop env wb we dir full nf s)))
     (fst (prefetch_loop env wb we dir full nf s)) evs"
proof (induction env wb we dir full nf s arbitrary: evs rule: prefetch_loop.induct)
  case (1 env wb we dir full nf s)
  note prem = \<open>calls (snd (prefetch_loop env wb we dir full nf s)) = calls s @ evs\<close>
  show ?case
  proof (cases "(dir > 0 \<and> nf \<le> we) \<or> (dir < 0 \<and> nf \<ge> wb)")
    case False
    with prem have "evs = []" "fst (prefetch_loop env wb we dir full nf s) = Inr full"
      by (simp_all add: prefetch_loop_stop)
    with False show ?thesis by (simp add: walk_post_def walk_frames_def in_walk_def)
  next
    case go: True
    then have inw: "in_walk wb we dir nf" by (simp add: in_walk_def)
    show ?thesis
    proof (cases "should_exit s \<or> userSeeked s")
      case True
      with prem have "evs = []" "prefetch_loop env wb we dir full nf s = (Inr full, s)"
        by (simp_all add: prefetch_loop_break)
      with True show ?thesis by (auto simp: walk_post_def walk_frames_def)
    next
      case run: False
      show ?thesis
      proof (cases "cache_Contains env (cache s) nf")
        case True
        let ?t = "s\<lparr> cache := cache_Touch env nf (cache s), last_cached_index := nf,
                     calls := calls s @ [CallContains nf True, CallTouch nf] \<rparr>"
        have eq: "prefetch_loop env wb we dir full nf s = prefetch_loop env wb we dir full (nf + dir) ?t"
          using go run True by (simp add: prefetch_loop_touch)
        obtain rest where rest: "calls (snd (prefetch_loop env wb we dir full (nf + dir) ?t)) = calls ?t @ rest"
          using prefetch_loop_calls_prefix by blast
        with prem eq have evs: "evs = [CallContains nf True, CallTouch nf] @ rest" by simp
        from "1.IH"(2) [OF go _ _ _ rest] run True
        have IH: "walk_post wb we dir (nf + dir) (should_exit s)
             (userSeeked (snd (prefetch_loop env wb we dir full nf s)))
             (fst (prefetch_loop env wb we dir full nf s)) rest"
          unfolding eq by simp
        show ?thesis unfolding evs
          by (rule walk_step [OF IH _ inw]) simp
      next
        case miss: False
        show ?thesis
        proof (cases "reader_GetFrame env nf")
          case (Inl e)
          with go run miss prem
          have "evs = [] @ [CallContains nf False, CallGetFrame nf (Inl e)]"
            and "fst (prefetch_loop env wb we dir full nf s) = (if e = OutOfBoundsFrame then Inr full else Inl e)"
            by (simp_all add: prefetch_loop_raise)
          with inw show ?thesis by (auto simp: walk_post_def walk_frames_def)
        next
          case (Inr f)
          let ?t = "s\<lparr> cache := fst (cache_Add env f (cache s)),
                  userSeeked := (userSeeked s \<or> snd (cache_Add env f (cache s))),
                  cached_frame_count := cached_frame_count s + 1,
                  last_cached_index := nf,
                  calls := calls s @ [CallContains nf False, CallGetFrame nf (Inr f),
                                      CallAdd f (snd (cache_Add env f (cache s)))] \<rparr>"
          have eq: "prefetch_loop env wb we dir full nf s = prefetch_loop env wb we dir False (nf + dir) ?t"
            using go run miss Inr by (simp add: prefetch_loop_fetch)
          obtain rest where rest: "calls (snd (prefetch_loop env wb we dir False (nf + dir) ?t)) = calls ?t @ rest"
            using prefetch_loop_calls_prefix by blast
          with prem eq have evs: "evs = [CallContains nf False, CallGetFrame nf (Inr f),
                                      CallAdd f (snd (cache_Add env f (cache s)))] @ rest" by simp
          from "1.IH"(1) [OF go _ _ _ Inr rest] run miss
          have IH: "walk_post wb we dir (nf + dir) (should_exit s)
             (userSeeked (snd (prefetch_loop env wb we dir full nf s)))
             (fst (prefetch_loop env wb we dir full nf s)) rest"
            unfolding eq by simp
          show ?thesis unfolding evs
            by (rule walk_step [OF IH _ inw]) simp
        qed
      qed
    qed
  qed
qed

lemma last_walk_frames: "last (a # walk_frames (a + d) d k) = a + int k * d"
proof (cases k)
  case 0
  then show ?thesis by (simp add: walk_frames_def)
next
  case (Suc j)
  then show ?thesis by (simp add: walk_frames_def algebra_simps)
qed

lemma walk_complete:
  assumes vis: "visited evs = walk_frames nf dir k" and k: "k = length (visited evs)"
    and inw: "\<forall>n\<in>set (visited evs). in_walk wb we dir n"
    and stop: "\<not> in_walk wb we dir (nf + int k * dir)"
  shows "(dir = 1 \<longrightarrow> visited evs = [nf..we])
       \<and> (dir = - 1 \<longrightarrow> visited evs = rev [wb..nf])"
proof (rule conjI; rule impI)
  assume d: "dir = 1"
  have "k = nat (we - nf + 1)"
  proof (cases k)
    case 0
    with stop d show ?thesis by (simp add: in_walk_def)
  next
    case (Suc j)
    then have "nf + int j * dir \<in> set (walk_frames nf dir k)"
      by (force simp: walk_frames_def)
    with inw vis have "in_walk wb we dir (nf + int j * dir)" by simp
    with stop d Suc show ?thesis by (simp add: in_walk_def)
  qed
  with vis d show "visited evs = [nf..we]" by (simp add: walk_frames_forward)
next
  assume d: "dir = - 1"
  have "k = nat (nf - wb + 1)"
  proof (cases k)
    case 0
    with stop d show ?thesis by (simp add: in_walk_def)
  next
    case (Suc j)
    then have "nf + int j * dir \<in> set (walk_frames nf dir k)"
      by (force simp: walk_frames_def)
    with inw vis have "in_walk wb we dir (nf + int j * dir)" by simp
    with stop d Suc show ?thesis by (simp add: in_walk_def)
  qed
  with vis d show "visited evs = rev [wb..nf]" by (simp add: walk_frames_backward)
qed


lemma prefetchWindow_walk:
  assumes run: "prefetchWindow env wb we dir s = (r, s')"
  shows "walk_post wb we dir (last_cached_index s + dir) (should_exit s) (userSeeked s') r
           (batch_calls s s')"
    and "last_cached_index s' + dir
           = last_cached_index s + dir + int (length (visited (batch_calls s s'))) * dir"
proof -
  let ?evs = "batch_calls s s'"
  note post = prefetchWindow_post [OF run, unfolded batch_post_def]
  from post have calls: "calls s' = calls s @ ?evs"
    and lci: "last_cached_index s' = last (last_cached_index s # visited ?evs)" by blast+
  from run have s': "prefetch_loop env wb we dir True (last_cached_index s + dir) s = (r, s')"
    by (simp add: prefetchWindow_def)
  from prefetch_loop_walk [of env wb we dir True "last_cached_index s + dir" s ?evs] calls s'
  show w: "walk_post wb we dir (last_cached_index s + dir) (should_exit s) (userSeeked s') r ?evs"
    by simp
  then have "visited ?evs = walk_frames (last_cached_index s + dir) dir (length (visited ?evs))"
    by (simp add: walk_post_def)
  with lci last_walk_frames [of "last_cached_index s" dir "length (visited ?evs)"]
  show "last_cached_index s' + dir
           = last_cached_index s + dir + int (length (visited ?evs)) * dir" by simp
qed


lemma prefetchWindow_complete:
  assumes run: "prefetchWindow env wb we dir s = (r, s')"
    and noexit: "\<not> should_exit s" and noseek: "\<not> userSeeked s'"
    and reader: "\<forall>k. in_walk wb we dir (last_cached_index s + dir + int k * dir) \<longrightarrow>
                   (\<exists>f. reader_GetFrame env (last_cached_index s + dir + int k * dir) = Inr f)"
  shows "(dir = 1 \<longrightarrow> visited (batch_calls s s') = [last_cached_index s + 1..we])
       \<and> (dir = - 1 \<longrightarrow> visited (batch_calls s s') = rev [wb..last_cached_index s - 1])"
    and "r = Inr (added (batch_calls s s') = [])"
proof -
  let ?evs = "batch_calls s s'"
  let ?nf = "last_cached_index s + dir"
  define nx where "nx = ?nf + int (length (visited ?evs)) * dir"
  note post = prefetchWindow_post [OF run, unfolded batch_post_def]
  from post have cons: "log_consistent env (cache s) ?evs"
    and full: "\<forall>b. r = Inr b \<longrightarrow> b = (True \<and> added ?evs = [])" by blast+
  from prefetchWindow_walk(1) [OF run, unfolded walk_post_def, folded nx_def]
  have vis: "visited ?evs = walk_frames ?nf dir (length (visited ?evs))"
    and inw: "\<forall>n\<in>set (visited ?evs). in_walk wb we dir n"
    and stop: "\<not> in_walk wb we dir nx \<or> should_exit s \<or> userSeeked s'
      \<or> (\<exists>e pre. ?evs = pre @ [CallContains nx False, CallGetFrame nx (Inl e)])"
    and exc: "\<forall>e. r = Inl e \<longrightarrow> in_walk wb we dir nx
         \<and> (\<exists>pre. ?evs = pre @ [CallContains nx False, CallGetFrame nx (Inl e)])"
    by blast+
  have raise: False
    if inx: "in_walk wb we dir nx"
      and ev: "?evs = pre @ [CallContains nx False, CallGetFrame nx (Inl e)]" for pre e
  proof -
    from ev have "CallGetFrame nx (Inl e) \<in> set ?evs" by simp
    from log_consistent_GetFrame [OF cons this] have "reader_GetFrame env nx = Inl e" by simp
    with reader inx show False unfolding nx_def by auto
  qed
  have "\<not> in_walk wb we dir nx"
    using stop noexit noseek raise by blast
  then have "\<not> in_walk wb we dir (?nf + int (length (visited ?evs)) * dir)" by (simp add: nx_def)
  from walk_complete [OF vis refl inw this]
  show "(dir = 1 \<longrightarrow> visited ?evs = [last_cached_index s + 1..we])
       \<and> (dir = - 1 \<longrightarrow> visited ?evs = rev [wb..last_cached_index s - 1])" by simp
  from exc raise have "\<forall>e. r \<noteq> Inl e" by blast
  then obtain b where "r = Inr b" by (cases r) auto
  with full show "r = Inr (added ?evs = [])" by simp
qed

lemma scenario_mixed:
  "prefetchWindow (memory_env (test_reader 100)) 1 5 1 ((test_thread 0)\<lparr> cache := cache_2_4 \<rparr>) =
    (Inr False,
     (test_thread 5)\<lparr>
        cached_frame_count := 3,
        cache := \<lparr> entries = map (\<lambda>n. \<lparr> number = n, bytes = 3686400 \<rparr>) [5, 4, 3, 2, 1],
                   max_bytes = 100000000, max_frames = 30 \<rparr>,
        calls := [CallContains 1 False, CallGetFrame 1 (Inr \<lparr> number = 1, bytes = 3686400 \<rparr>),
                  CallAdd \<lparr> number = 1, bytes = 3686400 \<rparr> False,
                  CallContains 2 True, CallTouch 2,
                  CallContains 3 False, CallGetFrame 3 (Inr \<lparr> number = 3, bytes = 3686400 \<rparr>),
                  CallAdd \<lparr> number = 3, bytes = 3686400 \<rparr> False,
                  CallContains 4 True, CallTouch 4,
                  CallContains 5 False, CallGetFrame 5 (Inr \<lparr> number = 5, bytes = 3686400 \<rparr>),
                  CallAdd \<lparr> number = 5, bytes = 3686400 \<rparr> False] \<rparr>)"
  apply (simp add: scenario_simps cache_2_4_def)
  apply (subst prefetch_loop.simps, simp add: scenario_simps)+
  done

text \<open>
  Claim C1. For every direction and window: when \<^verbatim>\<open>prefetchWindow\<close> goes from state \<open>s\<close> to
  \<open>s'\<close>, the calls of the batch are one block per frame, starting at
  \<open>last_cached_index s + dir\<close> in steps of \<open>dir\<close>: a frame the cache does not contain is
  fetched with \<^verbatim>\<open>GetFrame\<close> and added, a frame it contains is touched (\<open>batch_shape\<close>, where
  every logged answer is the one the cache and the reader give at that point of the batch:
  \<open>log_consistent\<close>), and the cache afterwards is the result of these calls. The frames
  visited are the walk \<open>last_cached_index s + dir, last_cached_index s + 2 dir, \<dots>\<close>, each
  of them inside the far edge of the window and each either touched or fetched and added.
  The walk ends at \<open>last_cached_index s'\<close> for one of four reasons only: the next frame is
  past the far edge, an exit was requested, \<^verbatim>\<open>userSeeked\<close> is set, or the fetch of the next
  frame raised. \<open>last_cached_index s'\<close> is the last frame visited (unchanged when none was);
  \<open>cached_frame_count\<close> grows by the number of frames added; and the method returns
  \<open>window_full = True\<close> exactly when no frame was added. An exception leaves the method only
  if the reader raises one other than \<^verbatim>\<open>OutOfBoundsFrame\<close>.

  So when no exit is requested, no seek is flagged and the reader has every frame up to the
  far edge, a forward batch visits exactly the frames \<open>last_cached_index s + 1, \<dots>,
  window_end\<close> and leaves \<open>last_cached_index\<close> at \<open>window_end\<close> (unchanged when it was
  already there or beyond); a backward batch visits \<open>last_cached_index s - 1\<close> down to
  \<open>window_begin\<close>.

  In particular, with a reader of at least 5 frames, an empty cache,
  \<open>last_cached_index = 0\<close>, window \<open>[1, 5]\<close> and \<open>dir = +1\<close>: the call returns \<open>False\<close>,
  leaves \<open>last_cached_index = 5\<close> and frames 1 to 5 in the cache, and the same call repeated
  at once returns \<open>True\<close>.
\<close>

theorem prefetchWindow_fills_window:
  "(prefetchWindow env window_begin window_end dir s = (r, s') \<longrightarrow>
      calls s' = calls s @ batch_calls s s'
      \<and> batch_shape (last_cached_index s + dir) dir (batch_calls s s')
      \<and> log_consistent env (cache s) (batch_calls s s')
      \<and> cache s' = cache_after env (cache s) (batch_calls s s')
      \<and> visited (batch_calls s s')
          = walk_frames (last_cached_index s + dir) dir (length (visited (batch_calls s s')))
      \<and> (\<forall>n \<in> set (visited (batch_calls s s')).
            in_walk window_begin window_end dir n
            \<and> ((CallContains n True \<in> set (batch_calls s s') \<and> CallTouch n \<in> set (batch_calls s s'))
               \<or> (\<exists>f b. CallContains n False \<in> set (batch_calls s s')
                         \<and> CallGetFrame n (Inr f) \<in> set (batch_calls s s')
                         \<and> CallAdd f b \<in> set (batch_calls s s'))))
      \<and> (\<not> in_walk window_begin window_end dir (last_cached_index s' + dir)
          \<or> should_exit s \<or> userSeeked s'
          \<or> (\<exists>e pre. batch_calls s s' =
                 pre @ [CallContains (last_cached_index s' + dir) False,
                        CallGetFrame (last_cached_index s' + dir) (Inl e)]))
      \<and> last_cached_index s' = last (last_cached_index s # visited (batch_calls s s'))
      \<and> cached_frame_count s' = cached_frame_count s + int (length (added (batch_calls s s')))
      \<and> (\<forall>full. r = Inr full \<longrightarrow> full = (added (batch_calls s s') = []))
      \<and> (\<forall>e. r = Inl e \<longrightarrow> e \<noteq> OutOfBoundsFrame \<and> (\<exists>n. reader_GetFrame env n = Inl e)))
   \<and> (prefetchWindow env window_begin window_end 1 s = (r, s')
        \<and> \<not> should_exit s \<and> \<not> userSeeked s'
        \<and> (\<forall>n. last_cached_index s < n \<and> n \<le> window_end \<longrightarrow> (\<exists>f. reader_GetFrame env n = Inr f)) \<longrightarrow>
        visited (batch_calls s s') = [last_cached_index s + 1..window_end]
        \<and> last_cached_index s' = max (last_cached_index s) window_end
        \<and> r = Inr (added (batch_calls s s') = []))
   \<and> (prefetchWindow env window_begin window_end (- 1) s = (r, s')
        \<and> \<not> should_exit s \<and> \<not> userSeeked s'
        \<and> (\<forall>n. window_begin \<le> n \<and> n < last_cached_index s \<longrightarrow> (\<exists>f. reader_GetFrame env n = Inr f)) \<longrightarrow>
        visited (batch_calls s s') = rev [window_begin..last_cached_index s - 1]
        \<and> last_cached_index s' = min (last_cached_index s) window_begin
        \<and> r = Inr (added (batch_calls s s') = []))
   \<and> (5 \<le> len \<longrightarrow>
        fst (prefetchWindow (memory_env (test_reader len)) 1 5 1 (test_thread 0)) = Inr False
        \<and> last_cached_index (snd (prefetchWindow (memory_env (test_reader len)) 1 5 1 (test_thread 0))) = 5
        \<and> (\<forall>n \<in> {1..5}. CacheMemory_Contains
               (cache (snd (prefetchWindow (memory_env (test_reader len)) 1 5 1 (test_thread 0)))) n)
        \<and> fst (prefetchWindow (memory_env (test_reader len)) 1 5 1
                 (snd (prefetchWindow (memory_env (test_reader len)) 1 5 1 (test_thread 0)))) = Inr True
        \<and> last_cached_index (snd (prefetchWindow (memory_env (test_reader len)) 1 5 1
                 (snd (prefetchWindow (memory_env (test_reader len)) 1 5 1 (test_thread 0))))) = 5)"
proof (intro conjI)
  show "prefetchWindow env window_begin window_end dir s = (r, s') \<longrightarrow>
      calls s' = calls s @ batch_calls s s'
      \<and> batch_shape (last_cached_index s + dir) dir (batch_calls s s')
      \<and> log_consistent env (cache s) (batch_calls s s')
      \<and> cache s' = cache_after env (cache s) (batch_calls s s')
      \<and> visited (batch_calls s s')
          = walk_frames (last_cached_index s + dir) dir (length (visited (batch_calls s s')))
      \<and> (\<forall>n \<in> set (visited (batch_calls s s')).
            in_walk window_begin window_end dir n
            \<and> ((CallContains n True \<in> set (batch_calls s s') \<and> CallTouch n \<in> set (batch_calls s s'))
               \<or> (\<exists>f b. CallContains n False \<in> set (batch_calls s s')
                         \<and> CallGetFrame n (Inr f) \<in> set (batch_calls s s')
                         \<and> CallAdd f b \<in> set (batch_calls s s'))))
      \<and> (\<not> in_walk window_begin window_end dir (last_cached_index s' + dir)
          \<or> should_exit s \<or> userSeeked s'
          \<or> (\<exists>e pre. batch_calls s s' =
                 pre @ [CallContains (last_cached_index s' + dir) False,
                        CallGetFrame (last_cached_index s' + dir) (Inl e)]))
      \<and> last_cached_index s' = last (last_cached_index s # visited (batch_calls s s'))
      \<and> cached_frame_count s' = cached_frame_count s + int (length (added (batch_calls s s')))
      \<and> (\<forall>full. r = Inr full \<longrightarrow> full = (added (batch_calls s s') = []))
      \<and> (\<forall>e. r = Inl e \<longrightarrow> e \<noteq> OutOfBoundsFrame \<and> (\<exists>n. reader_GetFrame env n = Inl e))"
  proof
    assume run: "prefetchWindow env window_begin window_end dir s = (r, s')"
    let ?evs = "batch_calls s s'"
    note post = prefetchWindow_post [OF run, unfolded batch_post_def]
    note walk = prefetchWindow_walk(1) [OF run, unfolded walk_post_def,
                  folded prefetchWindow_walk(2) [OF run]]
    from post have shape: "batch_shape (last_cached_index s + dir) dir ?evs" by blast
    have exc: "\<forall>e. r = Inl e \<longrightarrow> e \<noteq> OutOfBoundsFrame \<and> (\<exists>n. reader_GetFrame env n = Inl e)"
    proof (intro allI impI)
      fix e assume "r = Inl e"
      with post obtain pre n where e: "e \<noteq> OutOfBoundsFrame"
        and "?evs = pre @ [CallContains n False, CallGetFrame n (Inl e)]" by blast
      then have "CallGetFrame n (Inl e) \<in> set ?evs" by simp
      with post log_consistent_GetFrame [of env "cache s" ?evs n "Inl e"]
      have "Inl e = reader_GetFrame env n" by blast
      with e show "e \<noteq> OutOfBoundsFrame \<and> (\<exists>n. reader_GetFrame env n = Inl e)" by metis
    qed
    have each: "\<forall>n \<in> set (visited ?evs).
            in_walk window_begin window_end dir n
            \<and> ((CallContains n True \<in> set ?evs \<and> CallTouch n \<in> set ?evs)
               \<or> (\<exists>f b. CallContains n False \<in> set ?evs
                         \<and> CallGetFrame n (Inr f) \<in> set ?evs
                         \<and> CallAdd f b \<in> set ?evs))"
      using walk batch_shape_visited [OF shape] by blast
    from post walk exc each
    show "calls s' = calls s @ ?evs
      \<and> batch_shape (last_cached_index s + dir) dir ?evs
      \<and> log_consistent env (cache s) ?evs
      \<and> cache s' = cache_after env (cache s) ?evs
      \<and> visited ?evs = walk_frames (last_cached_index s + dir) dir (length (visited ?evs))
      \<and> (\<forall>n \<in> set (visited ?evs).
            in_walk window_begin window_end dir n
            \<and> ((CallContains n True \<in> set ?evs \<and> CallTouch n \<in> set ?evs)
               \<or> (\<exists>f b. CallContains n False \<in> set ?evs
                         \<and> CallGetFrame n (Inr f) \<in> set ?evs
                         \<and> CallAdd f b \<in> set ?evs)))
      \<and> (\<not> in_walk window_begin window_end dir (last_cached_index s' + dir)
          \<or> should_exit s \<or> userSeeked s'
          \<or> (\<exists>e pre. ?evs =
                 pre @ [CallContains (last_cached_index s' + dir) False,
                        CallGetFrame (last_cached_index s' + dir) (Inl e)]))
      \<and> last_cached_index s' = last (last_cached_index s # visited ?evs)
      \<and> cached_frame_count s' = cached_frame_count s + int (length (added ?evs))
      \<and> (\<forall>full. r = Inr full \<longrightarrow> full = (added ?evs = []))
      \<and> (\<forall>e. r = Inl e \<longrightarrow> e \<noteq> OutOfBoundsFrame \<and> (\<exists>n. reader_GetFrame env n = Inl e))"
      by simp
  qed
next
  show "prefetchWindow env window_begin window_end 1 s = (r, s')
        \<and> \<not> should_exit s \<and> \<not> userSeeked s'
        \<and> (\<forall>n. last_cached_index s < n \<and> n \<le> window_end \<longrightarrow> (\<exists>f. reader_GetFrame env n = Inr f)) \<longrightarrow>
        visited (batch_calls s s') = [last_cached_index s + 1..window_end]
        \<and> last_cached_index s' = max (last_cached_index s) window_end
        \<and> r = Inr (added (batch_calls s s') = [])"
  proof
    assume a: "prefetchWindow env window_begin window_end 1 s = (r, s')
        \<and> \<not> should_exit s \<and> \<not> userSeeked s'
        \<and> (\<forall>n. last_cached_index s < n \<and> n \<le> window_end \<longrightarrow> (\<exists>f. reader_GetFrame env n = Inr f))"
    then have run: "prefetchWindow env window_begin window_end 1 s = (r, s')" by simp
    from a have reader: "\<forall>k. in_walk window_begin window_end 1 (last_cached_index s + 1 + int k * 1) \<longrightarrow>
                   (\<exists>f. reader_GetFrame env (last_cached_index s + 1 + int k * 1) = Inr f)"
      by (simp add: in_walk_def)
    from a prefetchWindow_complete [OF run _ _ reader]
    have vis: "visited (batch_calls s s') = [last_cached_index s + 1..window_end]"
      and r: "r = Inr (added (batch_calls s s') = [])" by simp_all
    from prefetchWindow_post [OF run, unfolded batch_post_def]
    have "last_cached_index s' = last (last_cached_index s # visited (batch_calls s s'))" by blast
    then have "last_cached_index s' = max (last_cached_index s) window_end"
      unfolding vis by (cases "last_cached_index s < window_end") (simp_all add: last_upto)
    with vis r show "visited (batch_calls s s') = [last_cached_index s + 1..window_end]
        \<and> last_cached_index s' = max (last_cached_index s) window_end
        \<and> r = Inr (added (batch_calls s s') = [])" by simp
  qed
next
  show "prefetchWindow env window_begin window_end (- 1) s = (r, s')
        \<and> \<not> should_exit s \<and> \<not> userSeeked s'
        \<and> (\<forall>n. window_begin \<le> n \<and> n < last_cached_index s \<longrightarrow> (\<exists>f. reader_GetFrame env n = Inr f)) \<longrightarrow>
        visited (batch_calls s s') = rev [window_begin..last_cached_index s - 1]
        \<and> last_cached_index s' = min (last_cached_index s) window_begin
        \<and> r = Inr (added (batch_calls s s') = [])"
  proof
    assume a: "prefetchWindow env window_begin window_end (- 1) s = (r, s')
        \<and> \<not> should_exit s \<and> \<not> userSeeked s'
        \<and> (\<forall>n. window_begin \<le> n \<and> n < last_cached_index s \<longrightarrow> (\<exists>f. reader_GetFrame env n = Inr f))"
    then have run: "prefetchWindow env window_begin window_end (- 1) s = (r, s')" by simp
    from a have reader: "\<forall>k. in_walk window_begin window_end (- 1) (last_cached_index s + - 1 + int k * - 1) \<longrightarrow>
                   (\<exists>f. reader_GetFrame env (last_cached_index s + - 1 + int k * - 1) = Inr f)"
      by (simp add: in_walk_def)
    from a prefetchWindow_complete [OF run _ _ reader]
    have vis: "visited (batch_calls s s') = rev [window_begin..last_cached_index s - 1]"
      and r: "r = Inr (added (batch_calls s s') = [])" by simp_all
    from prefetchWindow_post [OF run, unfolded batch_post_def]
    have "last_cached_index s' = last (last_cached_index s # visited (batch_calls s s'))" by blast
    then have "last_cached_index s' = min (last_cached_index s) window_begin"
      unfolding vis
      by (cases "window_begin < last_cached_index s") (simp_all add: last_rev upto_rec1)
    with vis r show "visited (batch_calls s s') = rev [window_begin..last_cached_index s - 1]
        \<and> last_cached_index s' = min (last_cached_index s) window_begin
        \<and> r = Inr (added (batch_calls s s') = [])" by simp
  qed
next
  show "5 \<le> len \<longrightarrow>
        fst (prefetchWindow (memory_env (test_reader len)) 1 5 1 (test_thread 0)) = Inr False
        \<and> last_cached_index (snd (prefetchWindow (memory_env (test_reader len)) 1 5 1 (test_thread 0))) = 5
        \<and> (\<forall>n \<in> {1..5}. CacheMemory_Contains
               (cache (snd (prefetchWindow (memory_env (test_reader len)) 1 5 1 (test_thread 0)))) n)
        \<and> fst (prefetchWindow (memory_env (test_reader len)) 1 5 1
                 (snd (prefetchWindow (memory_env (test_reader len)) 1 5 1 (test_thread 0)))) = Inr True
        \<and> last_cached_index (snd (prefetchWindow (memory_env (test_reader len)) 1 5 1
                 (snd (prefetchWindow (memory_env (test_reader len)) 1 5 1 (test_thread 0))))) = 5"
  proof
    assume len: "5 \<le> len"
    have "fst (prefetchWindow (memory_env (test_reader len)) 1 5 1 (test_thread 0)) = Inr False"
      by (simp add: scenario_forward [OF len])
    moreover have "last_cached_index (snd (prefetchWindow (memory_env (test_reader len)) 1 5 1 (test_thread 0))) = 5"
      unfolding scenario_forward [OF len] by (simp add: test_thread_def)
    moreover have "\<forall>n \<in> {1..5}. CacheMemory_Contains
               (cache (snd (prefetchWindow (memory_env (test_reader len)) 1 5 1 (test_thread 0)))) n"
      unfolding scenario_forward [OF len] by (auto simp: CacheMemory_Contains_def)
    moreover have "fst (prefetchWindow (memory_env (test_reader len)) 1 5 1
                 (snd (prefetchWindow (memory_env (test_reader len)) 1 5 1 (test_thread 0)))) = Inr True"
      by (simp add: scenario_forward_again [OF len])
    moreover have "last_cached_index (snd (prefetchWindow (memory_env (test_reader len)) 1 5 1
                 (snd (prefetchWindow (memory_env (test_reader len)) 1 5 1 (test_thread 0))))) = 5"
      unfolding scenario_forward_again [OF len] snd_conv
      unfolding scenario_forward [OF len] by (simp add: test_thread_def)
    ultimately show "fst (prefetchWindow (memory_env (test_reader len)) 1 5 1 (test_thread 0)) = Inr False
        \<and> last_cached_index (snd (prefetchWindow (memory_env (test_reader len)) 1 5 1 (test_thread 0))) = 5
        \<and> (\<forall>n \<in> {1..5}. CacheMemory_Contains
               (cache (snd (prefetchWindow (memory_env (test_reader len)) 1 5 1 (test_thread 0)))) n)
        \<and> fst (prefetchWindow (memory_env (test_reader len)) 1 5 1
                 (snd (prefetchWindow (memory_env (test_reader len)) 1 5 1 (test_thread 0)))) = Inr True
        \<and> last_cached_index (snd (prefetchWindow (memory_env (test_reader len)) 1 5 1
                 (snd (prefetchWindow (memory_env (test_reader len)) 1 5 1 (test_thread 0))))) = 5"
      by blast
  qed
qed

text \<open>
  The theorem at a cache that already holds frames 2 and 4, with window \<open>[1, 5]\<close> forward
  from \<open>last_cached_index = 0\<close> (frames 1, 3 and 5 are fetched and added, frames 2 and 4 are
  touched), and at the backward scenario: \<open>last_cached_index = 16\<close>, window \<open>[10, 15]\<close>,
  \<open>dir = -1\<close>.
\<close>

theorem prefetchWindow_fills_window_witness:
  "fst (prefetchWindow (memory_env (test_reader 100)) 1 5 1 ((test_thread 0)\<lparr> cache := cache_2_4 \<rparr>))
     = Inr False
   \<and> CacheMemory_Contains cache_2_4 2 \<and> CacheMemory_Contains cache_2_4 4
   \<and> batch_calls ((test_thread 0)\<lparr> cache := cache_2_4 \<rparr>)
        (snd (prefetchWindow (memory_env (test_reader 100)) 1 5 1 ((test_thread 0)\<lparr> cache := cache_2_4 \<rparr>)))
      = [CallContains 1 False, CallGetFrame 1 (Inr \<lparr> number = 1, bytes = 3686400 \<rparr>),
         CallAdd \<lparr> number = 1, bytes = 3686400 \<rparr> False,
         CallContains 2 True, CallTouch 2,
         CallContains 3 False, CallGetFrame 3 (Inr \<lparr> number = 3, bytes = 3686400 \<rparr>),
         CallAdd \<lparr> number = 3, bytes = 3686400 \<rparr> False,
         CallContains 4 True, CallTouch 4,
         CallContains 5 False, CallGetFrame 5 (Inr \<lparr> number = 5, bytes = 3686400 \<rparr>),
         CallAdd \<lparr> number = 5, bytes = 3686400 \<rparr> False]
   \<and> visited (batch_calls ((test_thread 0)\<lparr> cache := cache_2_4 \<rparr>)
        (snd (prefetchWindow (memory_env (test_reader 100)) 1 5 1 ((test_thread 0)\<lparr> cache := cache_2_4 \<rparr>))))
      = [1, 2, 3, 4, 5]
   \<and> last_cached_index
        (snd (prefetchWindow (memory_env (test_reader 100)) 1 5 1 ((test_thread 0)\<lparr> cache := cache_2_4 \<rparr>)))
      = 5
   \<and> visited (batch_calls (test_thread 16)
        (snd (prefetchWindow (memory_env (test_reader 100)) 10 15 (- 1) (test_thread 16))))
      = [15, 14, 13, 12, 11, 10]
   \<and> last_cached_index (snd (prefetchWindow (memory_env (test_reader 100)) 10 15 (- 1) (test_thread 16))) = 10
   \<and> fst (prefetchWindow (memory_env (test_reader 100)) 10 15 (- 1) (test_thread 16)) = Inr False
   \<and> (5::int) \<le> 100
   \<and> fst (prefetchWindow (memory_env (test_reader 100)) 1 5 1 (test_thread 0)) = Inr False
   \<and> fst (prefetchWindow (memory_env (test_reader 100)) 1 5 1
            (snd (prefetchWindow (memory_env (test_reader 100)) 1 5 1 (test_thread 0)))) = Inr True"
proof -
  let ?E = "memory_env (test_reader 100)"
  let ?s = "(test_thread 0)\<lparr> cache := cache_2_4 \<rparr>"
  let ?s' = "snd (prefetchWindow ?E 1 5 1 ?s)"
  let ?b' = "snd (prefetchWindow ?E 10 15 (- 1) (test_thread 16))"
  note sb = scenario_backward [of 100, simplified]
  have has: "CacheMemory_Contains cache_2_4 2" "CacheMemory_Contains cache_2_4 4"
    by (simp_all add: cache_2_4_def scenario_defs)
  have run: "prefetchWindow ?E 1 5 1 ?s = (Inr False, ?s')"
    by (simp add: scenario_mixed)
  have log: "batch_calls ?s ?s'
      = [CallContains 1 False, CallGetFrame 1 (Inr \<lparr> number = 1, bytes = 3686400 \<rparr>),
         CallAdd \<lparr> number = 1, bytes = 3686400 \<rparr> False,
         CallContains 2 True, CallTouch 2,
         CallContains 3 False, CallGetFrame 3 (Inr \<lparr> number = 3, bytes = 3686400 \<rparr>),
         CallAdd \<lparr> number = 3, bytes = 3686400 \<rparr> False,
         CallContains 4 True, CallTouch 4,
         CallContains 5 False, CallGetFrame 5 (Inr \<lparr> number = 5, bytes = 3686400 \<rparr>),
         CallAdd \<lparr> number = 5, bytes = 3686400 \<rparr> False]"
    unfolding scenario_mixed
    by (simp add: batch_calls_def test_thread_def VideoCacheThread_init_def)
  have st: "\<not> should_exit ?s" "last_cached_index ?s = 0" "\<not> userSeeked ?s'"
    unfolding scenario_mixed by (simp_all add: test_thread_def VideoCacheThread_init_def)
  have rd: "\<forall>n. last_cached_index ?s < n \<and> n \<le> 5 \<longrightarrow> (\<exists>f. reader_GetFrame ?E n = Inr f)"
    by (simp add: st memory_env_def test_reader_def)
  have brun: "prefetchWindow ?E 10 15 (- 1) (test_thread 16) = (Inr False, ?b')"
    by (simp add: sb)
  have bst: "\<not> should_exit (test_thread 16)" "last_cached_index (test_thread 16) = 16"
    "\<not> userSeeked ?b'"
    unfolding sb by (simp_all add: test_thread_def VideoCacheThread_init_def)
  have brd: "\<forall>n. 10 \<le> n \<and> n < last_cached_index (test_thread 16) \<longrightarrow> (\<exists>f. reader_GetFrame ?E n = Inr f)"
    by (simp add: bst memory_env_def test_reader_def)
  note th = prefetchWindow_fills_window [of ?E 1 5 1 ?s "Inr False" ?s' 100]
  note bth = prefetchWindow_fills_window [of ?E 10 15 1 "test_thread 16" "Inr False" ?b' 100]
  note gen = th [THEN conjunct1, THEN mp, OF run]
  from th [THEN conjunct2, THEN conjunct1, THEN mp] run st rd
  have fwd: "visited (batch_calls ?s ?s') = [last_cached_index ?s + 1..5]
        \<and> last_cached_index ?s' = max (last_cached_index ?s) 5" by blast
  from bth [THEN conjunct2, THEN conjunct2, THEN conjunct1, THEN mp] brun bst brd
  have bwd: "visited (batch_calls (test_thread 16) ?b') = rev [10..last_cached_index (test_thread 16) - 1]
        \<and> last_cached_index ?b' = min (last_cached_index (test_thread 16)) 10" by blast
  have "(5::int) \<le> 100" by simp
  from th [THEN conjunct2, THEN conjunct2, THEN conjunct2, THEN mp, OF this]
  have sc: "fst (prefetchWindow ?E 1 5 1 (test_thread 0)) = Inr False"
    "fst (prefetchWindow ?E 1 5 1 (snd (prefetchWindow ?E 1 5 1 (test_thread 0)))) = Inr True"
    by blast+
  from fwd have f1: "visited (batch_calls ?s ?s') = [1, 2, 3, 4, 5]" "last_cached_index ?s' = 5"
    by (simp_all add: st upto_rec1)
  from bwd have b1: "visited (batch_calls (test_thread 16) ?b') = [15, 14, 13, 12, 11, 10]"
    "last_cached_index ?b' = 10"
    by (simp_all add: bst upto_rec1)
  have r1: "fst (prefetchWindow ?E 1 5 1 ?s) = Inr False"
    "fst (prefetchWindow ?E 10 15 (- 1) (test_thread 16)) = Inr False"
    by (simp_all add: scenario_mixed sb)
  from has log f1 b1 r1 sc show ?thesis by simp
qed











lemma seeks_append [simp]: "seeks (xs @ ys) = seeks xs @ seeks ys"
  by (induction xs rule: seeks.induct) auto


lemma queries_append [simp]: "queries (xs @ ys) = queries xs @ queries ys"
  by (induction xs rule: queries.induct) auto

lemma seek_event_simps [simp]:
  "seeks (seek_event a) = (case a of None \<Rightarrow> [] | Some p \<Rightarrow> [p])"
  "after_seek (seek_event a) = []"
  "queries (seek_event a) = []"
  by (cases a; simp add: seek_event_def)+




lemma seek_none [simp]: "seek_lands env None s = s" "seek_event None = []"
  by (simp_all add: seek_lands_def seek_event_def)











text \<open>
  Claim C10. \<^verbatim>\<open>prefetchWindow\<close> bounds its walk by the far edge of the window only: forward,
  the result does not depend on \<open>window_begin\<close>; backward, it does not depend on
  \<open>window_end\<close>. So when \<open>last_cached_index + dir\<close> lies outside the window on the near
  side, and that frame is not cached and the reader has it, the batch begins by fetching
  and adding this frame outside \<open>[window_begin, window_end]\<close>.
\<close>

theorem prefetchWindow_near_side_unbounded:
  "(0 < dir \<longrightarrow>
      prefetchWindow env window_begin window_end dir s
        = prefetchWindow env window_begin' window_end dir s)
   \<and> (dir < 0 \<longrightarrow>
      prefetchWindow env window_begin window_end dir s
        = prefetchWindow env window_begin window_end' dir s)
   \<and> (last_cached_index s + 1 < window_begin \<and> last_cached_index s + 1 \<le> window_end
       \<and> \<not> should_exit s \<and> \<not> userSeeked s
       \<and> \<not> cache_Contains env (cache s) (last_cached_index s + 1)
       \<and> reader_GetFrame env (last_cached_index s + 1) = Inr f \<longrightarrow>
       (\<exists>rest. batch_calls s (snd (prefetchWindow env window_begin window_end 1 s)) =
           CallContains (last_cached_index s + 1) False
           # CallGetFrame (last_cached_index s + 1) (Inr f)
           # CallAdd f (snd (cache_Add env f (cache s))) # rest))
   \<and> (window_end < last_cached_index s - 1 \<and> window_begin \<le> last_cached_index s - 1
       \<and> \<not> should_exit s \<and> \<not> userSeeked s
       \<and> \<not> cache_Contains env (cache s) (last_cached_index s - 1)
       \<and> reader_GetFrame env (last_cached_index s - 1) = Inr f \<longrightarrow>
       (\<exists>rest. batch_calls s (snd (prefetchWindow env window_begin window_end (- 1) s)) =
           CallContains (last_cached_index s - 1) False
           # CallGetFrame (last_cached_index s - 1) (Inr f)
           # CallAdd f (snd (cache_Add env f (cache s))) # rest))"
proof (intro conjI impI)
  assume "0 < dir"
  then show "prefetchWindow env window_begin window_end dir s
        = prefetchWindow env window_begin' window_end dir s"
    unfolding prefetchWindow_def by (rule prefetch_loop_forward_ignores_begin)
next
  assume "dir < 0"
  then show "prefetchWindow env window_begin window_end dir s
        = prefetchWindow env window_begin window_end' dir s"
    unfolding prefetchWindow_def by (rule prefetch_loop_backward_ignores_end)
next
  assume a: "last_cached_index s + 1 < window_begin \<and> last_cached_index s + 1 \<le> window_end
       \<and> \<not> should_exit s \<and> \<not> userSeeked s
       \<and> \<not> cache_Contains env (cache s) (last_cached_index s + 1)
       \<and> reader_GetFrame env (last_cached_index s + 1) = Inr f"
  then have go: "((1::int) > 0 \<and> last_cached_index s + 1 \<le> window_end)
               \<or> ((1::int) < 0 \<and> last_cached_index s + 1 \<ge> window_begin)" by simp
  from a prefetchWindow_first_fetch [OF go, of env f]
  show "\<exists>rest. batch_calls s (snd (prefetchWindow env window_begin window_end 1 s)) =
           CallContains (last_cached_index s + 1) False
           # CallGetFrame (last_cached_index s + 1) (Inr f)
           # CallAdd f (snd (cache_Add env f (cache s))) # rest" by blast
next
  assume a: "window_end < last_cached_index s - 1 \<and> window_begin \<le> last_cached_index s - 1
       \<and> \<not> should_exit s \<and> \<not> userSeeked s
       \<and> \<not> cache_Contains env (cache s) (last_cached_index s - 1)
       \<and> reader_GetFrame env (last_cached_index s - 1) = Inr f"
  then have go: "((- 1::int) > 0 \<and> last_cached_index s + - 1 \<le> window_end)
               \<or> ((- 1::int) < 0 \<and> last_cached_index s + - 1 \<ge> window_begin)" by simp
  from a prefetchWindow_first_fetch [OF go, of env f]
  show "\<exists>rest. batch_calls s (snd (prefetchWindow env window_begin window_end (- 1) s)) =
           CallContains (last_cached_index s - 1) False
           # CallGetFrame (last_cached_index s - 1) (Inr f)
           # CallAdd f (snd (cache_Add env f (cache s))) # rest" by simp
qed

text \<open>
  The theorem at \<open>last_cached_index = 0\<close> with window \<open>[3, 5]\<close> forward (frames 1 and 2
  are added), and at \<open>last_cached_index = 16\<close> with window \<open>[10, 13]\<close> backward (frame 15
  is added).
\<close>

theorem prefetchWindow_near_side_unbounded_witness:
  "prefetchWindow (memory_env (test_reader 100)) 3 5 1 (test_thread 0)
     = prefetchWindow (memory_env (test_reader 100)) 1 5 1 (test_thread 0)
   \<and> last_cached_index (test_thread 0) + 1 < 3
   \<and> take 3 (batch_calls (test_thread 0)
         (snd (prefetchWindow (memory_env (test_reader 100)) 3 5 1 (test_thread 0))))
       = [CallContains 1 False, CallGetFrame 1 (Inr \<lparr> number = 1, bytes = 3686400 \<rparr>),
          CallAdd \<lparr> number = 1, bytes = 3686400 \<rparr> False]
   \<and> map number (added (batch_calls (test_thread 0)
         (snd (prefetchWindow (memory_env (test_reader 100)) 3 5 1 (test_thread 0)))))
       = [1, 2, 3, 4, 5]
   \<and> CacheMemory_Contains
         (cache (snd (prefetchWindow (memory_env (test_reader 100)) 3 5 1 (test_thread 0)))) 1
   \<and> CacheMemory_Contains
         (cache (snd (prefetchWindow (memory_env (test_reader 100)) 3 5 1 (test_thread 0)))) 2
   \<and> 13 < last_cached_index (test_thread 16) - 1
   \<and> take 3 (batch_calls (test_thread 16)
         (snd (prefetchWindow (memory_env (test_reader 100)) 10 13 (- 1) (test_thread 16))))
       = [CallContains 15 False, CallGetFrame 15 (Inr \<lparr> number = 15, bytes = 3686400 \<rparr>),
          CallAdd \<lparr> number = 15, bytes = 3686400 \<rparr> False]"
proof -
  let ?E = "memory_env (test_reader 100)"
  let ?f = "\<lambda>n. \<lparr> number = n, bytes = 3686400 \<rparr>"
  note th = prefetchWindow_near_side_unbounded [of 1 ?E 3 5 "test_thread 0" 1 5 "?f 1"]
  note th' = prefetchWindow_near_side_unbounded [of 1 ?E 10 13 "test_thread 16" 1 5 "?f 15"]
  have same: "prefetchWindow ?E 3 5 1 (test_thread 0) = prefetchWindow ?E 1 5 1 (test_thread 0)"
    using th [THEN conjunct1] by simp
  have fwd: "last_cached_index (test_thread 0) + 1 < 3 \<and> last_cached_index (test_thread 0) + 1 \<le> 5
       \<and> \<not> should_exit (test_thread 0) \<and> \<not> userSeeked (test_thread 0)
       \<and> \<not> cache_Contains ?E (cache (test_thread 0)) (last_cached_index (test_thread 0) + 1)
       \<and> reader_GetFrame ?E (last_cached_index (test_thread 0) + 1) = Inr (?f 1)"
    by (simp add: scenario_simps)
  have bwd: "13 < last_cached_index (test_thread 16) - 1 \<and> 10 \<le> last_cached_index (test_thread 16) - 1
       \<and> \<not> should_exit (test_thread 16) \<and> \<not> userSeeked (test_thread 16)
       \<and> \<not> cache_Contains ?E (cache (test_thread 16)) (last_cached_index (test_thread 16) - 1)
       \<and> reader_GetFrame ?E (last_cached_index (test_thread 16) - 1) = Inr (?f 15)"
    by (simp add: scenario_simps)
  from th [THEN conjunct2, THEN conjunct2, THEN conjunct1, THEN mp, OF fwd]
  obtain rest where "batch_calls (test_thread 0) (snd (prefetchWindow ?E 3 5 1 (test_thread 0))) =
      CallContains (last_cached_index (test_thread 0) + 1) False
      # CallGetFrame (last_cached_index (test_thread 0) + 1) (Inr (?f 1))
      # CallAdd (?f 1) (snd (cache_Add ?E (?f 1) (cache (test_thread 0)))) # rest" by blast
  then have first: "take 3 (batch_calls (test_thread 0) (snd (prefetchWindow ?E 3 5 1 (test_thread 0))))
       = [CallContains 1 False, CallGetFrame 1 (Inr (?f 1)), CallAdd (?f 1) False]"
    by (simp add: test_thread_def VideoCacheThread_init_def memory_env_def)
  from th' [THEN conjunct2, THEN conjunct2, THEN conjunct2, THEN mp, OF bwd]
  obtain rest' where "batch_calls (test_thread 16) (snd (prefetchWindow ?E 10 13 (- 1) (test_thread 16))) =
      CallContains (last_cached_index (test_thread 16) - 1) False
      # CallGetFrame (last_cached_index (test_thread 16) - 1) (Inr (?f 15))
      # CallAdd (?f 15) (snd (cache_Add ?E (?f 15) (cache (test_thread 16)))) # rest'" by blast
  then have first': "take 3 (batch_calls (test_thread 16)
         (snd (prefetchWindow ?E 10 13 (- 1) (test_thread 16))))
       = [CallContains 15 False, CallGetFrame 15 (Inr (?f 15)), CallAdd (?f 15) False]"
    by (simp add: test_thread_def VideoCacheThread_init_def memory_env_def)
  note sf = scenario_forward [of 100, simplified]
  have "map number (added (batch_calls (test_thread 0) (snd (prefetchWindow ?E 3 5 1 (test_thread 0)))))
       = [1, 2, 3, 4, 5]"
    and "CacheMemory_Contains (cache (snd (prefetchWindow ?E 3 5 1 (test_thread 0)))) 1"
    and "CacheMemory_Contains (cache (snd (prefetchWindow ?E 3 5 1 (test_thread 0)))) 2"
    unfolding same sf
    by (simp_all add: batch_calls_def test_thread_def VideoCacheThread_init_def CacheMemory_Contains_def)
  with same first first' fwd bwd show ?thesis by simp
qed

text \<open>
  Claim C6. For every playhead \<open>p\<close> and direction \<open>d\<close>, whatever \<open>last_cached_index\<close> was,
  \<^verbatim>\<open>handleUserSeek(p, d)\<close> leaves \<open>last_cached_index = p - d\<close>; the next \<^verbatim>\<open>prefetchWindow\<close>
  in direction \<open>d\<close> therefore starts its loop at \<open>next_frame = p\<close>, and when \<open>p\<close> is inside
  the far edge and neither exit nor seek is pending, its first call asks the cache for
  frame \<open>p\<close>.
\<close>

theorem handleUserSeek_lands_on_playhead:
  "last_cached_index (handleUserSeek playhead dir s) = playhead - dir
   \<and> prefetchWindow env window_begin window_end dir (handleUserSeek playhead dir s)
       = prefetch_loop env window_begin window_end dir True playhead (handleUserSeek playhead dir s)
   \<and> (((dir > 0 \<and> playhead \<le> window_end) \<or> (dir < 0 \<and> playhead \<ge> window_begin))
        \<and> \<not> should_exit s \<and> \<not> userSeeked s \<longrightarrow>
       (\<exists>rest. batch_calls (handleUserSeek playhead dir s)
                 (snd (prefetchWindow env window_begin window_end dir (handleUserSeek playhead dir s)))
               = CallContains playhead (cache_Contains env (cache s) playhead) # rest))"
proof (intro conjI impI)
  show "last_cached_index (handleUserSeek playhead dir s) = playhead - dir"
    by (simp add: handleUserSeek_def)
  show "prefetchWindow env window_begin window_end dir (handleUserSeek playhead dir s)
       = prefetch_loop env window_begin window_end dir True playhead (handleUserSeek playhead dir s)"
    by (simp add: prefetchWindow_def handleUserSeek_def)
next
  let ?t = "handleUserSeek playhead dir s"
  assume a: "((dir > 0 \<and> playhead \<le> window_end) \<or> (dir < 0 \<and> playhead \<ge> window_begin))
        \<and> \<not> should_exit s \<and> \<not> userSeeked s"
  have next_frame: "last_cached_index ?t + dir = playhead" by (simp add: handleUserSeek_def)
  from a have go: "(dir > 0 \<and> last_cached_index ?t + dir \<le> window_end)
                 \<or> (dir < 0 \<and> last_cached_index ?t + dir \<ge> window_begin)"
    and run: "\<not> should_exit ?t" "\<not> userSeeked ?t"
    by (simp_all add: handleUserSeek_def)
  from prefetchWindow_first_query [OF go run, of env]
  show "\<exists>rest. batch_calls ?t (snd (prefetchWindow env window_begin window_end dir ?t))
               = CallContains playhead (cache_Contains env (cache s) playhead) # rest"
    unfolding next_frame by (simp add: handleUserSeek_def)
qed

text \<open>The unit test's values: from 100, a seek to 50 forward gives 49, backward 51.\<close>

theorem handleUserSeek_lands_on_playhead_witness:
  "last_cached_index (handleUserSeek 50 1 (test_thread 100)) = 49
   \<and> last_cached_index (handleUserSeek 50 (- 1) (handleUserSeek 50 1 (test_thread 100))) = 51
   \<and> (50::int) \<le> 60
   \<and> hd (batch_calls (handleUserSeek 50 1 (test_thread 100))
         (snd (prefetchWindow (memory_env (test_reader 100)) 50 60 1
                (handleUserSeek 50 1 (test_thread 100)))))
       = CallContains 50 False"
proof -
  let ?E = "memory_env (test_reader 100)"
  note th = handleUserSeek_lands_on_playhead [of 50 1 "test_thread 100" ?E 50 60]
  note th' = handleUserSeek_lands_on_playhead
               [of 50 "- 1" "handleUserSeek 50 1 (test_thread 100)" ?E 50 60]
  have hyp: "(((1::int) > 0 \<and> (50::int) \<le> 60) \<or> ((1::int) < 0 \<and> (50::int) \<ge> 50))
        \<and> \<not> should_exit (test_thread 100) \<and> \<not> userSeeked (test_thread 100)"
    by (simp add: scenario_simps)
  from th [THEN conjunct2, THEN conjunct2, THEN mp, OF hyp]
  obtain rest where "batch_calls (handleUserSeek 50 1 (test_thread 100))
         (snd (prefetchWindow ?E 50 60 1 (handleUserSeek 50 1 (test_thread 100))))
       = CallContains 50 (cache_Contains ?E (cache (test_thread 100)) 50) # rest" by blast
  then have "hd (batch_calls (handleUserSeek 50 1 (test_thread 100))
         (snd (prefetchWindow ?E 50 60 1 (handleUserSeek 50 1 (test_thread 100)))))
       = CallContains 50 False"
    by (simp add: scenario_simps)
  with th [THEN conjunct1] th' [THEN conjunct1] show ?thesis by simp
qed

lemma CacheMemory_Clear_empty: "\<not> CacheMemory_Contains (CacheMemory_Clear c) n"
  by (simp add: CacheMemory_Contains_def CacheMemory_Clear_def)

text \<open>
  Claim C5. For every playhead, paused flag and cache, \<^verbatim>\<open>clearCacheIfPaused\<close> returns true
  exactly when \<open>paused\<close> holds and the cache does not contain the playhead; in that case
  the cache is the result of \<^verbatim>\<open>ClearAllCache\<close>, which contains no frame when clearing
  empties a cache (for the memory cache: its count is 0); in every other case the cache
  is unchanged.
\<close>

theorem clearCacheIfPaused_iff:
  "fst (clearCacheIfPaused env playhead paused s)
     = (paused \<and> \<not> cache_Contains env (cache s) playhead)
   \<and> cache (snd (clearCacheIfPaused env playhead paused s))
     = (if paused \<and> \<not> cache_Contains env (cache s) playhead
        then timeline_ClearAllCache env (cache s) else cache s)
   \<and> ((\<forall>c n. \<not> cache_Contains env (timeline_ClearAllCache env c) n)
        \<and> fst (clearCacheIfPaused env playhead paused s) \<longrightarrow>
       (\<forall>n. \<not> cache_Contains env (cache (snd (clearCacheIfPaused env playhead paused s))) n))
   \<and> CacheMemory_Count (cache (snd (clearCacheIfPaused (memory_env rd) playhead paused m)))
     = (if paused \<and> \<not> CacheMemory_Contains (cache m) playhead
        then 0 else CacheMemory_Count (cache m))"
  by (simp add: clearCacheIfPaused_def memory_env_def CacheMemory_Count_def CacheMemory_Clear_def)


text \<open>
  The specification's scenario: the cache holds frames 5 and 10; paused at playhead 42
  the cache is cleared, paused at playhead 5 and playing at playhead 99 it is not.
\<close>

theorem clearCacheIfPaused_iff_witness:
  "CacheMemory_Contains cache_5_10 5 \<and> CacheMemory_Contains cache_5_10 10
   \<and> CacheMemory_Count cache_5_10 = 2
   \<and> fst (clearCacheIfPaused (memory_env (test_reader 100)) 42 True (VideoCacheThread_init cache_5_10))
   \<and> CacheMemory_Count (cache (snd
         (clearCacheIfPaused (memory_env (test_reader 100)) 42 True (VideoCacheThread_init cache_5_10)))) = 0
   \<and> \<not> CacheMemory_Contains (cache (snd
         (clearCacheIfPaused (memory_env (test_reader 100)) 42 True (VideoCacheThread_init cache_5_10)))) 5
   \<and> \<not> fst (clearCacheIfPaused (memory_env (test_reader 100)) 5 True (VideoCacheThread_init cache_5_10))
   \<and> cache (snd (clearCacheIfPaused (memory_env (test_reader 100)) 5 True (VideoCacheThread_init cache_5_10)))
       = cache_5_10
   \<and> \<not> fst (clearCacheIfPaused (memory_env (test_reader 100)) 99 False (VideoCacheThread_init cache_5_10))
   \<and> cache (snd (clearCacheIfPaused (memory_env (test_reader 100)) 99 False (VideoCacheThread_init cache_5_10)))
       = cache_5_10"
proof -
  let ?E = "memory_env (test_reader 100)"
  let ?s = "VideoCacheThread_init cache_5_10"
  have c: "cache_5_10 = \<lparr> entries = [\<lparr> number = 10, bytes = 0 \<rparr>, \<lparr> number = 5, bytes = 0 \<rparr>],
                          max_bytes = 100000000, max_frames = 30 \<rparr>"
    by (simp add: cache_5_10_def CacheMemory_Add_def CacheMemory_new_def evict_lru_fits)
  have has: "CacheMemory_Contains cache_5_10 5" "CacheMemory_Contains cache_5_10 10"
    "\<not> CacheMemory_Contains cache_5_10 42" "CacheMemory_Count cache_5_10 = 2"
    by (simp_all add: c CacheMemory_Contains_def CacheMemory_Count_def)
  have env: "cache_Contains ?E = CacheMemory_Contains" "timeline_ClearAllCache ?E = CacheMemory_Clear"
    "cache ?s = cache_5_10"
    by (simp_all add: memory_env_def VideoCacheThread_init_def)
  have contract: "\<forall>c n. \<not> cache_Contains ?E (timeline_ClearAllCache ?E c) n"
    by (simp add: env CacheMemory_Clear_empty)
  note t42 = clearCacheIfPaused_iff [of ?E 42 True ?s "test_reader 100" ?s]
  note t5 = clearCacheIfPaused_iff [of ?E 5 True ?s "test_reader 100" ?s]
  note t99 = clearCacheIfPaused_iff [of ?E 99 False ?s "test_reader 100" ?s]
  have r42: "fst (clearCacheIfPaused ?E 42 True ?s)"
    using t42 [THEN conjunct1] has by (simp add: env)
  from t42 [THEN conjunct2, THEN conjunct2, THEN conjunct1, THEN mp, OF conjI [OF contract r42]]
  have e42: "\<not> CacheMemory_Contains (cache (snd (clearCacheIfPaused ?E 42 True ?s))) 5"
    by (simp add: env)
  from t42 t5 t99 has r42 e42 show ?thesis
    by (simp add: env CacheMemory_Count_def CacheMemory_Clear_def)
qed

section \<open>Properties of the ColorMap loader\<close>











section \<open>Properties of Deinterlace\<close>

lemma c_div_nonneg: "0 \<le> a \<Longrightarrow> c_div a 2 = a div 2"
  by (simp add: c_div_def)

lemma rows_to_copy_eq:
  "rows_to_copy isOdd img
     = (int (length (scanlines img)) - (if isOdd then 1 else 0) + 1) div 2"
  by (simp add: rows_to_copy_def c_div_nonneg Let_def)

text \<open>
  Claim C9, as amended. For every image of height \<open>H\<close> and \<open>start\<close> 0 or 1 (1 when
  \<open>isOdd\<close>), the copy loop reads inside the image only and the intermediate image has
  exactly \<open>(H - start + 1) div 2\<close> rows, that is \<open>\<lceil>(H - start) / 2\<rceil>\<close>; its row \<open>i\<close> is row
  \<open>start + 2 i\<close> of the source; \<^verbatim>\<open>GetFrame\<close> returns this image rescaled to the original
  width and height.
\<close>

theorem deinterlaced_image_rows:
  "\<exists>d. deinterlaced_image isOdd img = Some d
     \<and> int (length (scanlines d))
         = (int (length (scanlines img)) - (if isOdd then 1 else 0) + 1) div 2
     \<and> int (length (scanlines d))
         = \<lceil>(real (length (scanlines img)) - (if isOdd then 1 else 0)) / 2\<rceil>
     \<and> img_width d = img_width img
     \<and> (\<forall>i < length (scanlines d).
           (if isOdd then 1 else 0) + 2 * i < length (scanlines img)
           \<and> scanlines d ! i = scanlines img ! ((if isOdd then 1 else 0) + 2 * i))
     \<and> Deinterlace_GetFrame scaled isOdd img
         = Some (scaled d (img_width img) (length (scanlines img)))"
proof -
  let ?H = "int (length (scanlines img))"
  let ?start = "if isOdd then 1 else 0 :: int"
  let ?n = "nat (rows_to_copy isOdd img)"
  let ?rows = "map (\<lambda>i. ?start + 2 * int i) [0..<?n]"
  let ?d = "\<lparr> img_width = img_width img,
               scanlines = map (\<lambda>row. scanlines img ! nat row) ?rows \<rparr>"
  have n: "int ?n = (?H - ?start + 1) div 2"
    by (simp add: rows_to_copy_eq)
  have inb: "0 \<le> ?start + 2 * int i \<and> ?start + 2 * int i < ?H" if "i < ?n" for i
  proof -
    from that have "int i < (?H - ?start + 1) div 2" using n by linarith
    then have "2 * int i + 2 \<le> ?H - ?start + 1" by linarith
    then show ?thesis by (simp split: if_splits)
  qed
  then have all: "list_all (\<lambda>row. 0 \<le> row \<and> row < ?H) ?rows"
    by (simp add: list_all_iff)
  then have d: "deinterlaced_image isOdd img = Some ?d"
    by (simp add: deinterlaced_image_def Let_def)
  have len: "int (length (scanlines ?d)) = (?H - ?start + 1) div 2"
    using n by simp
  have ceil: "int (length (scanlines ?d)) = \<lceil>(real (length (scanlines img)) - ?start) / 2\<rceil>"
  proof -
    have "\<lceil>(real (length (scanlines img)) - ?start) / 2\<rceil> = \<lceil>real_of_int (?H - ?start) / real_of_int 2\<rceil>"
      by simp
    also have "\<dots> = - ((- (?H - ?start)) div 2)"
      by (rule ceiling_divide_eq_div)
    also have "\<dots> = (?H - ?start + 1) div 2" by linarith
    finally show ?thesis using len by simp
  qed
  have rows: "\<forall>i < length (scanlines ?d).
           (if isOdd then 1 else 0) + 2 * i < length (scanlines img)
           \<and> scanlines ?d ! i = scanlines img ! ((if isOdd then 1 else 0) + 2 * i)"
  proof (intro allI impI)
    fix i assume "i < length (scanlines ?d)"
    then have i: "i < ?n" by simp
    from inb [OF i] have "(if isOdd then 1 else 0) + 2 * i < length (scanlines img)"
      by (simp split: if_splits)
    moreover have "nat (?start + 2 * int i) = (if isOdd then 1 else 0) + 2 * i"
      by (simp add: nat_add_distrib nat_mult_distrib)
    ultimately show "(if isOdd then 1 else 0) + 2 * i < length (scanlines img)
           \<and> scanlines ?d ! i = scanlines img ! ((if isOdd then 1 else 0) + 2 * i)"
      using i by simp
  qed
  have gf: "Deinterlace_GetFrame scaled isOdd img
         = Some (scaled ?d (img_width img) (length (scanlines img)))"
    by (simp add: Deinterlace_GetFrame_def d)
  from d len ceil rows gf show ?thesis
    by (intro exI [of _ ?d]) simp
qed

text \<open>
  The claim's row count \<open>\<lceil>(H - start + 1) / 2\<rceil>\<close> fails for an even height with
  \<open>start = 0\<close>: an image of 4 rows gives 2 rows (rows 0 and 2), not 3. The source's
  comment says the same: \<^verbatim>\<open>ceil(original_height / 2.0)\<close> rows for \<open>start = 0\<close>.
\<close>

theorem deinterlaced_image_rows_counterexample:
  "length (scanlines four_rows) = 4
   \<and> map_option scanlines (deinterlaced_image False four_rows) = Some [0, 2]
   \<and> rows_to_copy False four_rows = 2
   \<and> \<lceil>(real (length (scanlines four_rows)) - 0 + 1) / 2\<rceil> = 3
   \<and> rows_to_copy False four_rows \<noteq> \<lceil>(real (length (scanlines four_rows)) - 0 + 1) / 2\<rceil>"
proof -
  have "map_option scanlines (deinterlaced_image False four_rows) = Some [0, 2]"
    and "rows_to_copy False four_rows = 2"
    by code_simp+
  moreover have "length (scanlines four_rows) = 4"
    and "\<lceil>(real (length (scanlines four_rows)) - 0 + 1) / 2\<rceil> = 3"
    by (simp_all add: four_rows_def)
  ultimately show ?thesis by simp
qed

text \<open>The theorem at images of 5 and 4 rows.\<close>

theorem deinterlaced_image_rows_witness:
  "map_option scanlines (deinterlaced_image True five_rows) = Some [1, 3]
   \<and> map_option scanlines (deinterlaced_image False five_rows) = Some [0, 2, 4]
   \<and> map_option scanlines (deinterlaced_image True four_rows) = Some [1, 3]
   \<and> length (scanlines (the (deinterlaced_image True five_rows))) = 2"
proof -
  from deinterlaced_image_rows [of True five_rows "\<lambda>d w h. d"]
  obtain d where d: "deinterlaced_image True five_rows = Some d"
    and "int (length (scanlines d)) = (int (length (scanlines five_rows)) - (if True then 1 else 0) + 1) div 2"
    by blast
  then have "length (scanlines (the (deinterlaced_image True five_rows))) = 2"
    by (simp add: five_rows_def)
  moreover have "map_option scanlines (deinterlaced_image True five_rows) = Some [1, 3]"
    "map_option scanlines (deinterlaced_image False five_rows) = Some [0, 2, 4]"
    "map_option scanlines (deinterlaced_image True four_rows) = Some [1, 3]"
    by code_simp+
  ultimately show ?thesis by simp
qed

end
